theory Spec2Isabelle
  imports Main "HOL-Library.Word"
begin

section \<open>Go values shared by all operations of \<open>support.go\<close>\<close>

text \<open>
  A Go \<open>error\<close> is an interface value; \<open>nil\<close> is \<open>None\<close> of \<open>error option\<close>.
  The three constructors are the three ways \<open>support.go\<close> builds one with
  \<open>github.com/pkg/errors\<close>; the string of \<open>Errorf\<close> is the formatted message. An error
  coming from a collaborator is any value of the type.
\<close>

datatype error = Errorf string | WithMessage error string | Wrap error string

text \<open>A nil pointer dereference or an index out of range is a run-time panic.\<close>

datatype 'a result = Panic | Return 'a

section \<open>Ledger delegation\<close>

text \<open>
  \<open>s.Peer.GetLedger\<close> returns an interface value (\<open>ledger.PeerLedger\<close>), \<open>None\<close> when
  it is nil. Only the four methods that \<open>support.go\<close> calls are fields of the record; a
  method returning \<open>(T, error)\<close> with \<open>T\<close> a pointer or interface type returns
  \<open>'t option \<times> error option\<close>. \<open>SupportImpl.GetTransactionByID\<close> carries the name of
  its receiver, since the ledger has a method of the same name.
\<close>

record BlockchainInfo =
  Height :: "64 word"

record ('sim, 'hqe, 'tx) PeerLedger =
  NewTxSimulator :: "string \<Rightarrow> 'sim option \<times> error option"
  NewHistoryQueryExecutor :: "'hqe option \<times> error option"
  GetTransactionByID :: "string \<Rightarrow> 'tx option \<times> error option"
  GetBlockchainInfo :: "BlockchainInfo option \<times> error option"

text \<open>
  The calls an operation makes on the peer and on a ledger handle, in the order it makes
  them. Every operation returns its Go result together with this list.
\<close>

datatype peer_call =
    CallGetLedger string
  | CallNewTxSimulator string
  | CallNewHistoryQueryExecutor
  | CallGetTransactionByID string
  | CallGetBlockchainInfo

type_synonym ('sim, 'hqe, 'tx) Peer = "string \<Rightarrow> ('sim, 'hqe, 'tx) PeerLedger option"

definition NewQueryCreator ::
  "('sim, 'hqe, 'tx) Peer \<Rightarrow> string \<Rightarrow>
     (('sim, 'hqe, 'tx) PeerLedger option \<times> error option) \<times> peer_call list" where
  "NewQueryCreator GetLedger channel =
     (case GetLedger channel of
        None \<Rightarrow> ((None, Some (Errorf (''channel '' @ channel @ '' doesn'' @ [CHR 0x27] @ ''t exist''))),
                 [CallGetLedger channel])
      | Some lgr \<Rightarrow> ((Some lgr, None), [CallGetLedger channel]))"

definition GetTxSimulator ::
  "('sim, 'hqe, 'tx) Peer \<Rightarrow> string \<Rightarrow> string \<Rightarrow>
     ('sim option \<times> error option) \<times> peer_call list" where
  "GetTxSimulator GetLedger ledgername txid =
     (case GetLedger ledgername of
        None \<Rightarrow> ((None, Some (Errorf (''Channel does not exist: '' @ ledgername))),
                 [CallGetLedger ledgername])
      | Some lgr \<Rightarrow> (NewTxSimulator lgr txid,
                     [CallGetLedger ledgername, CallNewTxSimulator txid]))"

definition GetHistoryQueryExecutor ::
  "('sim, 'hqe, 'tx) Peer \<Rightarrow> string \<Rightarrow>
     ('hqe option \<times> error option) \<times> peer_call list" where
  "GetHistoryQueryExecutor GetLedger ledgername =
     (case GetLedger ledgername of
        None \<Rightarrow> ((None, Some (Errorf (''Channel does not exist: '' @ ledgername))),
                 [CallGetLedger ledgername])
      | Some lgr \<Rightarrow> (NewHistoryQueryExecutor lgr,
                     [CallGetLedger ledgername, CallNewHistoryQueryExecutor]))"

definition SupportImpl_GetTransactionByID ::
  "('sim, 'hqe, 'tx) Peer \<Rightarrow> string \<Rightarrow> string \<Rightarrow>
     ('tx option \<times> error option) \<times> peer_call list" where
  "SupportImpl_GetTransactionByID GetLedger chid txID =
     (case GetLedger chid of
        None \<Rightarrow> ((None, Some (Errorf (''failed to look up the ledger for Channel '' @ chid))),
                 [CallGetLedger chid])
      | Some lgr \<Rightarrow>
          (case GetTransactionByID lgr txID of
             (tx, Some err) \<Rightarrow> ((None, Some (WithMessage err ''GetTransactionByID failed'')),
                               [CallGetLedger chid, CallGetTransactionByID txID])
           | (tx, None) \<Rightarrow> ((tx, None), [CallGetLedger chid, CallGetTransactionByID txID])))"

text \<open>
  \<open>info.Height\<close> dereferences the pointer the ledger returned: a nil \<open>info\<close> with a nil
  error panics.
\<close>

definition GetLedgerHeight ::
  "('sim, 'hqe, 'tx) Peer \<Rightarrow> string \<Rightarrow> (64 word \<times> error option) result \<times> peer_call list" where
  "GetLedgerHeight GetLedger channelID =
     (case GetLedger channelID of
        None \<Rightarrow> (Return (0, Some (Errorf (''failed to look up the ledger for Channel '' @ channelID))),
                 [CallGetLedger channelID])
      | Some lgr \<Rightarrow>
          (case GetBlockchainInfo lgr of
             (info, Some err) \<Rightarrow>
               (Return (0, Some (Wrap err (''failed to obtain information for Channel '' @ channelID))),
                [CallGetLedger channelID, CallGetBlockchainInfo])
           | (None, None) \<Rightarrow> (Panic, [CallGetLedger channelID, CallGetBlockchainInfo])
           | (Some i, None) \<Rightarrow>
               (Return (Height i, None), [CallGetLedger channelID, CallGetBlockchainInfo])))"

section \<open>Access control\<close>

text \<open>
  The channel header is the protobuf message \<open>common.ChannelHeader\<close>; its other fields
  are the extension of the record. The argument is a pointer: \<open>chdr.ChannelId\<close> panics on
  nil. \<open>aclProvider\<close> is the \<open>CheckACL\<close> method of \<open>s.ACLProvider\<close> and \<open>Peer_Propose\<close>
  the resource name \<open>resources.Peer_Propose\<close>, a constant of a package that is not part
  of this file.
\<close>

record ChannelHeader =
  ChannelId :: string

definition CheckACL ::
  "(string \<Rightarrow> string \<Rightarrow> 'sp \<Rightarrow> error option) \<Rightarrow> string \<Rightarrow>
     'sp \<Rightarrow> 'c ChannelHeader_scheme option \<Rightarrow> 'sh \<Rightarrow> 'hx \<Rightarrow> error option result" where
  "CheckACL aclProvider Peer_Propose signedProp chdr shdr hdrext =
     (case chdr of
        None \<Rightarrow> Panic
      | Some h \<Rightarrow> Return (aclProvider Peer_Propose (ChannelId h) signedProp))"

section \<open>\<open>Execute\<close>: the data\<close>

text \<open>
  Byte strings (\<open>[]byte\<close>) and Go strings are both \<open>string\<close>: a \<open>char\<close> is a byte, and
  \<open>string(inputs[i].Args[0])\<close> copies the bytes. A Go map is a partial function.

  The chaincode inputs are reached through pointers (\<open>*pb.ChaincodeInput\<close>) and the first
  loop of \<open>Execute\<close> writes through them, so they live in a store: a pointer is an address
  or nil (\<open>None\<close>), and two positions of \<open>inputs\<close> may hold the same address. \<open>txParams\<close>
  is a pointer as well.
\<close>

type_synonym addr = nat

record ChaincodeInput =
  Args :: "string list"
  Decorations :: "string \<rightharpoonup> string"

type_synonym store = "addr \<Rightarrow> ChaincodeInput"

record TransactionParams =
  ProposalDecorations :: "string \<rightharpoonup> string"

record ChaincodeSupport =
  CCContainerName :: string

record CCContext =
  Name :: string
  Version :: string

text \<open>One task outcome: what \<open>s.Execute\<close> of a backend returns.\<close>

record ('r, 'e) outcome =
  response :: 'r
  event :: 'e
  task_err :: "error option"

text \<open>
  The arguments of one backend call \<open>s.Execute(txParams, cccid, inputs[index])\<close>: the
  pointer \<open>txParams\<close>, and the message \<open>inputs[index]\<close> points to.
\<close>

record ('z, 't) backend_call =
  arg_backend :: "'z ChaincodeSupport_scheme"
  arg_txParams :: "'t TransactionParams_scheme option"
  arg_cccid :: CCContext
  arg_input :: ChaincodeInput

section \<open>\<open>Execute\<close>: decoration\<close>

text \<open>
  Modelled from the spec: \<open>decoration.Apply\<close> and the \<open>decoration.Decorator\<close> interface
  of package \<open>core/handlers/decoration\<close> are missing from the sources. The spec (4.1):
  "Output: the same input with decorations populated by zero or more registered
  decorators applied in a fixed registration order. No side effects beyond mutating the
  input's decoration mapping." A decorator is therefore given by the decoration mapping
  it leaves in the message it is handed, as a function of the proposal and of that
  message as it finds it; \<open>Apply\<close> hands the message at the address it received to each
  decorator in turn and returns that address. The registered list
  (\<open>library.InitRegistry(...).Lookup(library.Decoration)\<close>) is a parameter of \<open>Execute\<close>.
\<close>

type_synonym 'p Decorator = "'p \<Rightarrow> ChaincodeInput \<Rightarrow> (string \<rightharpoonup> string)"

fun Apply :: "'p \<Rightarrow> addr \<Rightarrow> 'p Decorator list \<Rightarrow> store \<Rightarrow> addr \<times> store" where
  "Apply proposal a [] m = (a, m)"
| "Apply proposal a (decorator # decorators) m =
     Apply proposal a decorators (m(a := (m a)\<lparr>Decorations := decorator proposal (m a)\<rparr>))"

text \<open>
  The body of the first loop of \<open>Execute\<close> at index \<open>i\<close>, on the shared transaction
  parameters, the store and the slice \<open>inputs\<close>. The loop ranges over \<open>inputs\<close>, so
  \<open>inputs[i]\<close> is in range. \<open>input.Decorations = make(...)\<close> writes through the pointer
  and panics when it is nil; \<open>props[i]\<close> panics when \<open>props\<close> is shorter;
  \<open>txParams.ProposalDecorations = input.Decorations\<close> reads the message \<open>Apply\<close> returned
  and panics when \<open>txParams\<close> is nil; \<open>inputs[i] = input\<close> stores the returned pointer.
\<close>

definition decorate_input ::
  "'p Decorator list \<Rightarrow> 'p list \<Rightarrow>
     't TransactionParams_scheme option \<times> store \<times> addr option list \<Rightarrow> nat \<Rightarrow>
     ('t TransactionParams_scheme option \<times> store \<times> addr option list) result" where
  "decorate_input decorators props st i =
     (case st of (txp, m, inputs) \<Rightarrow>
        (case inputs ! i of
           None \<Rightarrow> Panic
         | Some a \<Rightarrow>
             if i < length props then
               (case Apply (props ! i) a decorators (m(a := (m a)\<lparr>Decorations := Map.empty\<rparr>)) of
                  (inp, m') \<Rightarrow>
                    (case txp of
                       None \<Rightarrow> Panic
                     | Some t \<Rightarrow>
                         Return (Some (t\<lparr>ProposalDecorations := Decorations (m' inp)\<rparr>), m',
                                 inputs[i := Some inp])))
             else Panic))"

fun decorate_loop ::
  "'p Decorator list \<Rightarrow> 'p list \<Rightarrow> nat list \<Rightarrow>
     't TransactionParams_scheme option \<times> store \<times> addr option list \<Rightarrow>
     ('t TransactionParams_scheme option \<times> store \<times> addr option list) result" where
  "decorate_loop decorators props [] st = Return st"
| "decorate_loop decorators props (i # is) st =
     (case decorate_input decorators props st i of
        Panic \<Rightarrow> Panic
      | Return st' \<Rightarrow> decorate_loop decorators props is st')"

text \<open>
  After the first loop nothing in \<open>Execute\<close> writes to the messages any more: the second
  loop and the goroutines only read them through the pointers of \<open>inputs\<close>. What they
  read is the list of the messages the pointers point to; reading through a nil
  pointer panics.
\<close>

fun deref :: "store \<Rightarrow> addr option list \<Rightarrow> ChaincodeInput list result" where
  "deref m [] = Return []"
| "deref m (p # ps) =
     (case p of
        None \<Rightarrow> Panic
      | Some a \<Rightarrow>
          (case deref m ps of
             Panic \<Rightarrow> Panic
           | Return xs \<Rightarrow> Return (m a # xs)))"

section \<open>\<open>Execute\<close>: target selection and dispatch\<close>

text \<open>
  The head of the second loop, on the messages behind the pointers of \<open>inputs\<close> as the
  first loop left them: \<open>support := s.ChaincodeSupport[i]\<close> panics when the roster
  has no position \<open>i\<close>, and \<open>inputs[i].Args[0]\<close> panics when the input has no argument.
  When the first line has passed the roster is not empty, so its last position exists.
\<close>

definition select_support ::
  "'z ChaincodeSupport_scheme list \<Rightarrow> ChaincodeInput list \<Rightarrow> nat \<Rightarrow>
     'z ChaincodeSupport_scheme result" where
  "select_support supports inputs i =
     (if i < length supports then
        (case Args (inputs ! i) of
           [] \<Rightarrow> Panic
         | a # _ \<Rightarrow>
             if a = ''GetConfigBlock'' then Return (supports ! (length supports - 1))
             else Return (supports ! i))
      else Panic)"

definition version2 :: "string \<Rightarrow> string \<Rightarrow> 'z ChaincodeSupport_scheme \<Rightarrow> string" where
  "version2 name version s =
     (if name \<noteq> ''cscc'' \<and> name \<noteq> ''lscc'' then version @ ''-'' @ CCContainerName s
      else version)"

text \<open>
  What the goroutine started for \<open>(index, s)\<close> passes to the backend. It reads
  \<open>inputs[index]\<close> when it runs, which is after the first loop has finished; \<open>txParams\<close>
  is the one pointer that \<open>Execute\<close> received.
\<close>

definition task_call ::
  "'t TransactionParams_scheme option \<Rightarrow> string \<Rightarrow> string \<Rightarrow> ChaincodeInput list \<Rightarrow> nat \<Rightarrow>
     'z ChaincodeSupport_scheme \<Rightarrow> ('z, 't) backend_call" where
  "task_call txp name version inputs index s =
     \<lparr>arg_backend = s, arg_txParams = txp,
      arg_cccid = \<lparr>Name = name, Version = version2 name version s\<rparr>,
      arg_input = inputs ! index\<rparr>"

text \<open>
  The second loop, over the indices of \<open>inputs\<close>: the calls of the goroutines it has
  started, in index order, and whether it panicked before starting them all.
\<close>

fun dispatch_loop ::
  "'z ChaincodeSupport_scheme list \<Rightarrow> ChaincodeInput list \<Rightarrow>
     (nat \<Rightarrow> 'z ChaincodeSupport_scheme \<Rightarrow> 'c) \<Rightarrow> nat list \<Rightarrow> 'c list \<times> bool" where
  "dispatch_loop supports inputs go [] = ([], False)"
| "dispatch_loop supports inputs go (i # is) =
     (case select_support supports inputs i of
        Panic \<Rightarrow> ([], True)
      | Return support \<Rightarrow>
          (case dispatch_loop supports inputs go is of
             (cs, panicked) \<Rightarrow> (go i support # cs, panicked)))"

section \<open>\<open>Execute\<close>: the goroutines and the aggregation loop\<close>

text \<open>
  The state of the concurrent part: one program counter per goroutine (with the three
  values it holds once its backend call has returned), the three buffered channels as
  queues (head first), and the variables of the aggregation loop. \<open>res\<close> of the loop body
  lives in the program counter between the second and the third receive.
\<close>

datatype ('r, 'e) task_pc =
    Calling
  | SendEvent "('r, 'e) outcome"
  | SendErr "('r, 'e) outcome"
  | SendRes "('r, 'e) outcome"
  | Finished

datatype 'r agg_pc = RecvErr | RecvRes | RecvEvent 'r | Exited

record ('r, 'e) coord =
  pcs :: "('r, 'e) task_pc list"
  cRes :: "'r list"
  cCCEvt :: "'e list"
  cErr :: "error option list"
  apc :: "'r agg_pc"
  err :: "error option"
  resps :: "'r list"
  ccEvents :: "'e list"

definition chan_cap :: nat where
  "chan_cap = 2"

definition init :: "nat \<Rightarrow> ('r, 'e) coord" where
  "init n = \<lparr>pcs = replicate n Calling, cRes = [], cCCEvt = [], cErr = [],
             apc = RecvErr, err = None, resps = [], ccEvents = []\<rparr>"

text \<open>
  One step of goroutine \<open>i\<close>. \<open>outs ! i\<close> is what its backend call returns, \<open>None\<close> when
  the call never returns. A send on a full channel blocks: the step is not enabled.
  The goroutine sends the event, then the error, then the response.
\<close>

definition task_step ::
  "('r, 'e) outcome option list \<Rightarrow> nat \<Rightarrow> ('r, 'e) coord \<Rightarrow> ('r, 'e) coord option" where
  "task_step outs i s =
     (if i < length (pcs s) \<and> i < length outs then
        (case pcs s ! i of
           Calling \<Rightarrow>
             (case outs ! i of
                None \<Rightarrow> None
              | Some out \<Rightarrow> Some (s\<lparr>pcs := (pcs s)[i := SendEvent out]\<rparr>))
         | SendEvent out \<Rightarrow>
             if length (cCCEvt s) < chan_cap
             then Some (s\<lparr>pcs := (pcs s)[i := SendErr out], cCCEvt := cCCEvt s @ [event out]\<rparr>)
             else None
         | SendErr out \<Rightarrow>
             if length (cErr s) < chan_cap
             then Some (s\<lparr>pcs := (pcs s)[i := SendRes out], cErr := cErr s @ [task_err out]\<rparr>)
             else None
         | SendRes out \<Rightarrow>
             if length (cRes s) < chan_cap
             then Some (s\<lparr>pcs := (pcs s)[i := Finished], cRes := cRes s @ [response out]\<rparr>)
             else None
         | Finished \<Rightarrow> None)
      else None)"

text \<open>
  The rest of the loop body once the three values are there: both appends, the exit
  test, and only then the overwrite of slot 0. \<open>n\<close> is \<open>len(inputs)\<close>.
\<close>

definition collect :: "nat \<Rightarrow> 'r \<Rightarrow> 'e \<Rightarrow> ('r, 'e) coord \<Rightarrow> ('r, 'e) coord" where
  "collect n res evt s =
     (let resps' = resps s @ [res]; ccEvents' = ccEvents s @ [evt] in
      if length resps' \<ge> n
      then s\<lparr>apc := Exited, resps := resps', ccEvents := ccEvents'\<rparr>
      else if err s \<noteq> None
      then s\<lparr>apc := RecvErr, resps := resps'[0 := res], ccEvents := ccEvents'[0 := evt]\<rparr>
      else s\<lparr>apc := RecvErr, resps := resps', ccEvents := ccEvents'\<rparr>)"

text \<open>
  One step of the aggregation loop: a receive from \<open>cErr\<close> (the only case of the
  \<open>select\<close>), then from \<open>cRes\<close>, then from \<open>cCCEvt\<close>. A receive on an empty channel
  blocks.
\<close>

definition agg_step :: "nat \<Rightarrow> ('r, 'e) coord \<Rightarrow> ('r, 'e) coord option" where
  "agg_step n s =
     (case apc s of
        RecvErr \<Rightarrow>
          (case cErr s of
             [] \<Rightarrow> None
           | e # q \<Rightarrow> Some (s\<lparr>cErr := q, apc := RecvRes, err := e\<rparr>))
      | RecvRes \<Rightarrow>
          (case cRes s of
             [] \<Rightarrow> None
           | res # q \<Rightarrow> Some (s\<lparr>cRes := q, apc := RecvEvent res\<rparr>))
      | RecvEvent res \<Rightarrow>
          (case cCCEvt s of
             [] \<Rightarrow> None
           | evt # q \<Rightarrow> Some (collect n res evt (s\<lparr>cCCEvt := q\<rparr>)))
      | Exited \<Rightarrow> None)"

text \<open>
  A schedule is the order in which the Go scheduler lets the goroutines and the
  aggregation loop take their steps. \<open>exec_sched\<close> follows it and gives \<open>None\<close> when it
  asks for a step that is blocked: such a list is not an execution.
\<close>

datatype action = Task nat | Aggregate

fun step ::
  "('r, 'e) outcome option list \<Rightarrow> action \<Rightarrow> ('r, 'e) coord \<Rightarrow> ('r, 'e) coord option" where
  "step outs (Task i) s = task_step outs i s"
| "step outs Aggregate s = agg_step (length outs) s"

fun exec_sched ::
  "('r, 'e) outcome option list \<Rightarrow> action list \<Rightarrow> ('r, 'e) coord \<Rightarrow> ('r, 'e) coord option" where
  "exec_sched outs [] s = Some s"
| "exec_sched outs (a # as) s =
     (case step outs a s of
        None \<Rightarrow> None
      | Some s' \<Rightarrow> exec_sched outs as s')"

section \<open>\<open>Execute\<close>\<close>

text \<open>
  The first loop of \<open>Execute\<close> (\<open>for i, _ := range inputs\<close>) on the caller's
  \<open>txParams\<close>, the store and \<open>inputs\<close>, with the messages it leaves behind the pointers
  of \<open>inputs\<close>; and the second loop on what the first one left.
\<close>

definition decorated ::
  "'p Decorator list \<Rightarrow> 'p list \<Rightarrow> 't TransactionParams_scheme option \<Rightarrow> store \<Rightarrow>
     addr option list \<Rightarrow> ('t TransactionParams_scheme option \<times> ChaincodeInput list) result" where
  "decorated decorators props txp m inputs =
     (case decorate_loop decorators props [0..<length inputs] (txp, m, inputs) of
        Panic \<Rightarrow> Panic
      | Return (txp', m', inputs') \<Rightarrow>
          (case deref m' inputs' of
             Panic \<Rightarrow> Panic
           | Return ins \<Rightarrow> Return (txp', ins)))"

definition dispatched ::
  "'z ChaincodeSupport_scheme list \<Rightarrow> 't TransactionParams_scheme option \<Rightarrow> string \<Rightarrow> string \<Rightarrow>
     ChaincodeInput list \<Rightarrow> ('z, 't) backend_call list \<times> bool" where
  "dispatched supports txp name version inputs =
     dispatch_loop supports inputs (task_call txp name version inputs) [0..<length inputs]"

text \<open>
  \<open>exec\<close> is the \<open>Execute\<close> method of the backends, \<open>decorators\<close> the registered
  decorators, \<open>supports\<close> the roster \<open>s.ChaincodeSupport\<close>, \<open>m\<close> the store the pointers of
  \<open>inputs\<close> point into, \<open>sched\<close> the schedule of the run. \<open>cid\<close>, \<open>txid\<close> and \<open>signedProp\<close>
  are not used by the source either. When the second loop has not panicked it has
  started one goroutine per input, so the exit test of the aggregation loop compares
  against the number of calls. The result is \<open>Returned\<close> when the loop has exited at the
  end of the schedule, and \<open>NotReturned\<close> when it has not (or when the schedule is not
  an execution).
\<close>

datatype ('r, 'e) exec_result =
    Panicked
  | NotReturned
  | Returned "'r list" "'e list" "error option"

definition Execute ::
  "(('z, 't) backend_call \<Rightarrow> ('r, 'e) outcome option) \<Rightarrow> 'p Decorator list \<Rightarrow>
     'z ChaincodeSupport_scheme list \<Rightarrow> store \<Rightarrow> 't TransactionParams_scheme option \<Rightarrow>
     string \<Rightarrow> string \<Rightarrow> string \<Rightarrow> string \<Rightarrow> 'sp \<Rightarrow> 'p list \<Rightarrow> addr option list \<Rightarrow>
     action list \<Rightarrow> ('r, 'e) exec_result" where
  "Execute exec decorators supports m txParams cid name version txid signedProp props inputs sched =
     (case decorated decorators props txParams m inputs of
        Panic \<Rightarrow> Panicked
      | Return (txp, ins) \<Rightarrow>
          (case dispatched supports txp name version ins of
             (calls, True) \<Rightarrow> Panicked
           | (calls, False) \<Rightarrow>
               (case exec_sched (map exec calls) sched (init (length calls)) of
                  None \<Rightarrow> NotReturned
                | Some s \<Rightarrow>
                    if apc s = Exited then Returned (resps s) (ccEvents s) (err s)
                    else NotReturned)))"

section \<open>Bookkeeping for the proofs\<close>

text \<open>
  What the decorators, applied in order, make of a message; \<open>Apply\<close> leaves this value
  at the address it is given.
\<close>

fun decorate_value :: "'p \<Rightarrow> ChaincodeInput \<Rightarrow> 'p Decorator list \<Rightarrow> ChaincodeInput" where
  "decorate_value proposal x [] = x"
| "decorate_value proposal x (decorator # decorators) =
     decorate_value proposal (x\<lparr>Decorations := decorator proposal x\<rparr>) decorators"

text \<open>
  Counters on the program counters: whether a goroutine has sent its event, its error,
  its response, and how many steps it still has to take; how many more errors and
  responses than completed iterations the aggregation loop has received.
\<close>

fun evt_sent :: "('r, 'e) task_pc \<Rightarrow> nat" where
  "evt_sent Calling = 0"
| "evt_sent (SendEvent out) = 0"
| "evt_sent (SendErr out) = 1"
| "evt_sent (SendRes out) = 1"
| "evt_sent Finished = 1"

fun err_sent :: "('r, 'e) task_pc \<Rightarrow> nat" where
  "err_sent Calling = 0"
| "err_sent (SendEvent out) = 0"
| "err_sent (SendErr out) = 0"
| "err_sent (SendRes out) = 1"
| "err_sent Finished = 1"

fun res_sent :: "('r, 'e) task_pc \<Rightarrow> nat" where
  "res_sent Calling = 0"
| "res_sent (SendEvent out) = 0"
| "res_sent (SendErr out) = 0"
| "res_sent (SendRes out) = 0"
| "res_sent Finished = 1"

fun task_left :: "('r, 'e) task_pc \<Rightarrow> nat" where
  "task_left Calling = 4"
| "task_left (SendEvent out) = 3"
| "task_left (SendErr out) = 2"
| "task_left (SendRes out) = 1"
| "task_left Finished = 0"

fun err_recv :: "'r agg_pc \<Rightarrow> nat" where
  "err_recv RecvErr = 0"
| "err_recv RecvRes = 1"
| "err_recv (RecvEvent res) = 1"
| "err_recv Exited = 0"

fun res_recv :: "'r agg_pc \<Rightarrow> nat" where
  "res_recv RecvErr = 0"
| "res_recv RecvRes = 0"
| "res_recv (RecvEvent res) = 1"
| "res_recv Exited = 0"

definition total :: "(('r, 'e) task_pc \<Rightarrow> nat) \<Rightarrow> ('r, 'e) coord \<Rightarrow> nat" where
  "total f s = sum_list (map f (pcs s))"

definition agg_done :: "('r, 'e) coord \<Rightarrow> nat" where
  "agg_done s = 3 * length (resps s) + err_recv (apc s) + res_recv (apc s)"

definition coord_inv :: "nat \<Rightarrow> ('r, 'e) coord \<Rightarrow> bool" where
  "coord_inv n s =
     (length (pcs s) = n
      \<and> length (ccEvents s) = length (resps s)
      \<and> total evt_sent s = length (resps s) + length (cCCEvt s)
      \<and> total err_sent s = length (resps s) + err_recv (apc s) + length (cErr s)
      \<and> total res_sent s = length (resps s) + res_recv (apc s) + length (cRes s)
      \<and> (if apc s = Exited then length (resps s) = n else length (resps s) < n))"

text \<open>The error a goroutine holds, for the batches in which no task fails.\<close>

fun held_err :: "('r, 'e) task_pc \<Rightarrow> error option" where
  "held_err Calling = None"
| "held_err (SendEvent out) = task_err out"
| "held_err (SendErr out) = task_err out"
| "held_err (SendRes out) = task_err out"
| "held_err Finished = None"

definition no_error :: "('r, 'e) coord \<Rightarrow> bool" where
  "no_error s = ((\<forall>pc\<in>set (pcs s). held_err pc = None)
                 \<and> (\<forall>e\<in>set (cErr s). e = None) \<and> err s = None)"

section \<open>The two loops before the goroutines run\<close>

lemma Apply_eq: "Apply p a ds m = (a, m(a := decorate_value p (m a) ds))"
  by (induction ds arbitrary: m) simp_all

lemma decorate_value_Args [simp]: "Args (decorate_value p x ds) = Args x"
  by (induction ds arbitrary: x) simp_all

lemma decorate_value_append:
  "decorate_value p x (ds @ es) = decorate_value p (decorate_value p x ds) es"
  by (induction ds arbitrary: x) simp_all

lemma decorate_value_take_Suc:
  assumes "k < length ds"
  shows "decorate_value p x (take (Suc k) ds) =
           (decorate_value p x (take k ds))
             \<lparr>Decorations := (ds ! k) p (decorate_value p x (take k ds))\<rparr>"
  using assms by (simp add: take_Suc_conv_app_nth decorate_value_append)

lemma emptied_eq:
  fixes x y :: ChaincodeInput
  assumes "Args x = Args y"
  shows "x\<lparr>Decorations := Map.empty\<rparr> = y\<lparr>Decorations := Map.empty\<rparr>"
  using assms by (cases x; cases y) simp

lemma decorate_input_Return:
  assumes "inputs ! i = Some a" and "i < length props"
  shows "decorate_input decorators props (Some t, m, inputs) i =
           Return (Some (t\<lparr>ProposalDecorations :=
                            Decorations (decorate_value (props ! i)
                              ((m a)\<lparr>Decorations := Map.empty\<rparr>) decorators)\<rparr>),
                   m(a := decorate_value (props ! i) ((m a)\<lparr>Decorations := Map.empty\<rparr>) decorators),
                   inputs)"
proof -
  have "inputs[i := Some a] = inputs"
    using assms(1) list_update_id [of inputs i] by simp
  then show ?thesis using assms by (simp add: decorate_input_def Apply_eq)
qed

lemma decorate_input_Return_imp:
  assumes "decorate_input decorators props (txp, m, inputs) i = Return (txp', m', inputs')"
  shows "inputs' = inputs \<and> inputs ! i \<noteq> None \<and> i < length props \<and> txp \<noteq> None \<and> txp' \<noteq> None"
proof -
  obtain a where a: "inputs ! i = Some a"
    using assms by (auto simp: decorate_input_def split: option.splits)
  have i: "i < length props"
    using assms a by (auto simp: decorate_input_def split: if_splits)
  obtain t where t: "txp = Some t"
    using assms a i by (auto simp: decorate_input_def Apply_eq split: option.splits)
  show ?thesis
    using assms decorate_input_Return [OF a i, of decorators t m] a i t by auto
qed

lemma decorate_loop_Return_imp:
  assumes "decorate_loop decorators props is (txp, m, inputs) = Return (txp', m', inputs')"
  shows "inputs' = inputs \<and> (\<forall>i\<in>set is. inputs ! i \<noteq> None \<and> i < length props)
       \<and> (is \<noteq> [] \<longrightarrow> txp \<noteq> None)"
  using assms
proof (induction "is" arbitrary: txp m)
  case Nil
  then show ?case by simp
next
  case (Cons i "is")
  from Cons.prems obtain st where
    st: "decorate_input decorators props (txp, m, inputs) i = Return st"
    and rest: "decorate_loop decorators props is st = Return (txp', m', inputs')"
    by (auto split: result.splits)
  obtain txp1 m1 inputs1 where st1: "st = (txp1, m1, inputs1)" by (cases st)
  from decorate_input_Return_imp [OF st [unfolded st1]]
  have a: "inputs1 = inputs" "inputs ! i \<noteq> None" "i < length props" "txp \<noteq> None" by simp_all
  from Cons.IH [OF rest [unfolded st1 a(1)]] a show ?case by simp
qed

lemma decorate_loop_append:
  "decorate_loop decorators props (xs @ ys) st =
     (case decorate_loop decorators props xs st of
        Panic \<Rightarrow> Panic
      | Return st' \<Rightarrow> decorate_loop decorators props ys st')"
  by (induction xs arbitrary: st) (simp_all split: result.splits)

text \<open>
  The state after the passes \<open>0..n-1\<close>: the slice is unchanged, the arguments of every
  message are unchanged, a message that no pass has reached is unchanged, and a message
  that has been reached holds what the last pass that reached it made of it.
\<close>

lemma decorate_loop_upt:
  assumes "n \<le> length props" and "\<forall>i<n. inputs ! i \<noteq> None"
  shows "\<exists>tx m'.
           decorate_loop decorators props [0..<n] (Some t, m, inputs) = Return (Some tx, m', inputs)
         \<and> (n = 0 \<longrightarrow> tx = t)
         \<and> (\<forall>a. 0 < n \<and> inputs ! (n - 1) = Some a
               \<longrightarrow> tx = t\<lparr>ProposalDecorations := Decorations (m' a)\<rparr>)
         \<and> (\<forall>a. Args (m' a) = Args (m a))
         \<and> (\<forall>a. (\<forall>i<n. inputs ! i \<noteq> Some a) \<longrightarrow> m' a = m a)
         \<and> (\<forall>a i. i < n \<and> inputs ! i = Some a \<and> (\<forall>i'<n. i < i' \<longrightarrow> inputs ! i' \<noteq> Some a)
               \<longrightarrow> m' a = decorate_value (props ! i) ((m a)\<lparr>Decorations := Map.empty\<rparr>) decorators)"
  using assms
proof (induction n)
  case 0
  then show ?case by simp
next
  case (Suc n)
  from Suc.prems have p1: "n \<le> length props" and p2: "\<forall>i<n. inputs ! i \<noteq> None" by simp_all
  from Suc.IH [OF p1 p2] obtain tx m1 where
    r: "decorate_loop decorators props [0..<n] (Some t, m, inputs) = Return (Some tx, m1, inputs)"
    and t0: "n = 0 \<longrightarrow> tx = t"
    and tl: "\<forall>a. 0 < n \<and> inputs ! (n - 1) = Some a
               \<longrightarrow> tx = t\<lparr>ProposalDecorations := Decorations (m1 a)\<rparr>"
    and ar: "\<forall>a. Args (m1 a) = Args (m a)"
    and un: "\<forall>a. (\<forall>i<n. inputs ! i \<noteq> Some a) \<longrightarrow> m1 a = m a"
    and la: "\<forall>a i. i < n \<and> inputs ! i = Some a \<and> (\<forall>i'<n. i < i' \<longrightarrow> inputs ! i' \<noteq> Some a)
               \<longrightarrow> m1 a = decorate_value (props ! i) ((m a)\<lparr>Decorations := Map.empty\<rparr>) decorators"
    by blast
  obtain b where b: "inputs ! n = Some b" using Suc.prems(2) by auto
  have np: "n < length props" using Suc.prems(1) by simp
  let ?v = "decorate_value (props ! n) ((m b)\<lparr>Decorations := Map.empty\<rparr>) decorators"
  have em: "(m1 b)\<lparr>Decorations := Map.empty\<rparr> = (m b)\<lparr>Decorations := Map.empty\<rparr>"
    using ar by (intro emptied_eq) simp
  have pass: "decorate_input decorators props (Some tx, m1, inputs) n =
                Return (Some (tx\<lparr>ProposalDecorations := Decorations ?v\<rparr>), m1(b := ?v), inputs)"
    using decorate_input_Return [OF b np, of decorators tx m1] em by simp
  have loop: "decorate_loop decorators props [0..<Suc n] (Some t, m, inputs) =
                Return (Some (tx\<lparr>ProposalDecorations := Decorations ?v\<rparr>), m1(b := ?v), inputs)"
    using r pass by (simp add: decorate_loop_append)
  have tx: "tx\<lparr>ProposalDecorations := Decorations ?v\<rparr> = t\<lparr>ProposalDecorations := Decorations ?v\<rparr>"
  proof (cases "n = 0")
    case True
    then show ?thesis using t0 by simp
  next
    case False
    then have "n - 1 < n" by simp
    then have "inputs ! (n - 1) \<noteq> None" using p2 by blast
    then obtain c where "inputs ! (n - 1) = Some c" by auto
    then have "tx = t\<lparr>ProposalDecorations := Decorations (m1 c)\<rparr>" using tl False by simp
    then show ?thesis by simp
  qed
  have c2: "\<forall>a. 0 < Suc n \<and> inputs ! (Suc n - 1) = Some a
               \<longrightarrow> tx\<lparr>ProposalDecorations := Decorations ?v\<rparr>
                     = t\<lparr>ProposalDecorations := Decorations ((m1(b := ?v)) a)\<rparr>"
    using b tx by simp
  have c3: "\<forall>a. Args ((m1(b := ?v)) a) = Args (m a)" using ar by simp
  have c4: "\<forall>a. (\<forall>i<Suc n. inputs ! i \<noteq> Some a) \<longrightarrow> (m1(b := ?v)) a = m a"
  proof (intro allI impI)
    fix a assume h: "\<forall>i<Suc n. inputs ! i \<noteq> Some a"
    then have "a \<noteq> b" using b by auto
    moreover have "\<forall>i<n. inputs ! i \<noteq> Some a" using h by simp
    ultimately show "(m1(b := ?v)) a = m a" using un by simp
  qed
  have c5: "\<forall>a i. i < Suc n \<and> inputs ! i = Some a
                 \<and> (\<forall>i'<Suc n. i < i' \<longrightarrow> inputs ! i' \<noteq> Some a)
               \<longrightarrow> (m1(b := ?v)) a
                     = decorate_value (props ! i) ((m a)\<lparr>Decorations := Map.empty\<rparr>) decorators"
  proof (intro allI impI)
    fix a i
    assume h: "i < Suc n \<and> inputs ! i = Some a
                 \<and> (\<forall>i'<Suc n. i < i' \<longrightarrow> inputs ! i' \<noteq> Some a)"
    show "(m1(b := ?v)) a
            = decorate_value (props ! i) ((m a)\<lparr>Decorations := Map.empty\<rparr>) decorators"
    proof (cases "i = n")
      case True
      then have "a = b" using h b by simp
      then show ?thesis using True by simp
    next
      case False
      then have i: "i < n" using h by simp
      then have "inputs ! n \<noteq> Some a" using h by simp
      then have ab: "a \<noteq> b" using b by auto
      have "\<forall>i'<n. i < i' \<longrightarrow> inputs ! i' \<noteq> Some a" using h by simp
      then have "m1 a = decorate_value (props ! i) ((m a)\<lparr>Decorations := Map.empty\<rparr>) decorators"
        using la i h by blast
      then show ?thesis using ab by simp
    qed
  qed
  have c1: "Suc n = 0 \<longrightarrow> tx\<lparr>ProposalDecorations := Decorations ?v\<rparr> = t" by simp
  show ?case
    by (intro exI [of _ "tx\<lparr>ProposalDecorations := Decorations ?v\<rparr>"]
        exI [of _ "m1(b := ?v)"] conjI) (rule loop c1 c2 c3 c4 c5)+
qed

lemma deref_Return:
  assumes "\<forall>p\<in>set ps. p \<noteq> None"
  shows "\<exists>xs. deref m ps = Return xs \<and> length xs = length ps
           \<and> (\<forall>j<length ps. \<forall>a. ps ! j = Some a \<longrightarrow> xs ! j = m a)"
  using assms
proof (induction ps)
  case Nil
  then show ?case by simp
next
  case (Cons p ps)
  then obtain a where a: "p = Some a" by auto
  from Cons obtain xs where
    xs: "deref m ps = Return xs" "length xs = length ps"
      "\<forall>j<length ps. \<forall>a. ps ! j = Some a \<longrightarrow> xs ! j = m a"
    by auto
  have "\<forall>j<length (p # ps). \<forall>b. (p # ps) ! j = Some b \<longrightarrow> (m a # xs) ! j = m b"
  proof (intro allI impI)
    fix j b assume "j < length (p # ps)" "(p # ps) ! j = Some b"
    then show "(m a # xs) ! j = m b" using a xs(3) by (cases j) simp_all
  qed
  then show ?case using a xs(1,2) by simp
qed

lemma deref_Return_imp:
  assumes "deref m ps = Return xs"
  shows "length xs = length ps"
  using assms
  by (induction ps arbitrary: xs) (auto split: option.splits result.splits)

lemma last_index:
  assumes "j < n" and "inputs ! j = Some (a::addr)"
  shows "\<exists>i<n. inputs ! i = Some a \<and> (\<forall>i'<n. i < i' \<longrightarrow> inputs ! i' \<noteq> Some a)"
proof -
  let ?S = "{i. i < n \<and> inputs ! i = Some a}"
  have f: "finite ?S" by simp
  have ne: "?S \<noteq> {}" using assms by auto
  have "Max ?S \<in> ?S" using f ne by (rule Max_in)
  moreover have "\<forall>i'<n. Max ?S < i' \<longrightarrow> inputs ! i' \<noteq> Some a"
  proof (intro allI impI notI)
    fix i' assume "i' < n" "Max ?S < i'" "inputs ! i' = Some a"
    then have "i' \<in> ?S" by simp
    then have "i' \<le> Max ?S" by (rule Max_ge [OF f])
    with \<open>Max ?S < i'\<close> show False by simp
  qed
  ultimately show ?thesis by blast
qed

lemma decorated_Return:
  assumes "length inputs \<le> length props" and "\<forall>p\<in>set inputs. p \<noteq> None"
  shows "\<exists>ins.
           decorated decorators props (Some t) m inputs =
             Return (Some (if inputs = [] then t
                           else t\<lparr>ProposalDecorations := Decorations (last ins)\<rparr>), ins)
         \<and> length ins = length inputs
         \<and> (\<forall>j<length inputs. \<forall>a. inputs ! j = Some a \<longrightarrow>
              (\<exists>i<length inputs. inputs ! i = Some a
                 \<and> (\<forall>i'<length inputs. i < i' \<longrightarrow> inputs ! i' \<noteq> Some a)
                 \<and> ins ! j = decorate_value (props ! i)
                               ((m a)\<lparr>Decorations := Map.empty\<rparr>) decorators))"
proof -
  let ?n = "length inputs"
  have nn: "\<forall>i<?n. inputs ! i \<noteq> None" using assms(2) by simp
  from decorate_loop_upt [OF assms(1) nn, of decorators t m] obtain tx m' where
    r: "decorate_loop decorators props [0..<?n] (Some t, m, inputs) = Return (Some tx, m', inputs)"
    and t0: "?n = 0 \<longrightarrow> tx = t"
    and tl: "\<forall>a. 0 < ?n \<and> inputs ! (?n - 1) = Some a
               \<longrightarrow> tx = t\<lparr>ProposalDecorations := Decorations (m' a)\<rparr>"
    and la: "\<forall>a i. i < ?n \<and> inputs ! i = Some a \<and> (\<forall>i'<?n. i < i' \<longrightarrow> inputs ! i' \<noteq> Some a)
               \<longrightarrow> m' a = decorate_value (props ! i) ((m a)\<lparr>Decorations := Map.empty\<rparr>) decorators"
    by blast
  from deref_Return [OF assms(2), of m'] obtain ins where
    d: "deref m' inputs = Return ins" and l: "length ins = ?n"
    and v: "\<forall>j<?n. \<forall>a. inputs ! j = Some a \<longrightarrow> ins ! j = m' a"
    by blast
  have dec: "decorated decorators props (Some t) m inputs = Return (Some tx, ins)"
    using r d by (simp add: decorated_def)
  have tx: "tx = (if inputs = [] then t else t\<lparr>ProposalDecorations := Decorations (last ins)\<rparr>)"
  proof (cases "inputs = []")
    case True
    then show ?thesis using t0 by simp
  next
    case False
    then have n: "0 < ?n" by simp
    then have "?n - 1 < ?n" by simp
    then have "inputs ! (?n - 1) \<noteq> None" using nn by blast
    then obtain a where a: "inputs ! (?n - 1) = Some a" by auto
    have "ins \<noteq> []" using l False by auto
    then have "last ins = ins ! (?n - 1)" using l by (simp add: last_conv_nth)
    also have "\<dots> = m' a" using v a n by simp
    finally show ?thesis using tl a n False by simp
  qed
  have c: "\<forall>j<?n. \<forall>a. inputs ! j = Some a \<longrightarrow>
              (\<exists>i<?n. inputs ! i = Some a
                 \<and> (\<forall>i'<?n. i < i' \<longrightarrow> inputs ! i' \<noteq> Some a)
                 \<and> ins ! j = decorate_value (props ! i)
                               ((m a)\<lparr>Decorations := Map.empty\<rparr>) decorators)"
  proof (intro allI impI)
    fix j a assume j: "j < ?n" and a: "inputs ! j = Some a"
    from last_index [OF j a] obtain i where
      i: "i < ?n" "inputs ! i = Some a" "\<forall>i'<?n. i < i' \<longrightarrow> inputs ! i' \<noteq> Some a" by blast
    have "ins ! j = m' a" using v j a by simp
    also have "\<dots> = decorate_value (props ! i) ((m a)\<lparr>Decorations := Map.empty\<rparr>) decorators"
      using la i by blast
    finally show "\<exists>i<?n. inputs ! i = Some a
                 \<and> (\<forall>i'<?n. i < i' \<longrightarrow> inputs ! i' \<noteq> Some a)
                 \<and> ins ! j = decorate_value (props ! i)
                               ((m a)\<lparr>Decorations := Map.empty\<rparr>) decorators"
      using i by blast
  qed
  show ?thesis using dec tx l c by blast
qed

text \<open>
  The first loop returns only when every input has its proposal, no pointer of
  \<open>inputs\<close> is nil and, for a batch that is not empty, \<open>txParams\<close> is not nil; in every
  other case it panics.
\<close>

lemma decorated_Return_imp:
  assumes "decorated decorators props txp m inputs = Return (txp', ins)"
  shows "length inputs \<le> length props \<and> (\<forall>p\<in>set inputs. p \<noteq> None)
       \<and> (inputs \<noteq> [] \<longrightarrow> txp \<noteq> None) \<and> length ins = length inputs"
proof -
  from assms obtain m' inputs' where
    r: "decorate_loop decorators props [0..<length inputs] (txp, m, inputs) = Return (txp', m', inputs')"
    and d: "deref m' inputs' = Return ins"
    by (auto simp: decorated_def split: result.splits)
  from decorate_loop_Return_imp [OF r]
  have i: "inputs' = inputs"
    and a: "\<forall>i\<in>set [0..<length inputs]. inputs ! i \<noteq> None \<and> i < length props"
    and t: "[0..<length inputs] \<noteq> [] \<longrightarrow> txp \<noteq> None"
    by blast+
  have le: "length inputs \<le> length props"
  proof (cases "inputs = []")
    case True then show ?thesis by simp
  next
    case False
    then have "length inputs - 1 \<in> set [0..<length inputs]" by simp
    then have "length inputs - 1 < length props" using a by blast
    then show ?thesis by simp
  qed
  have nn: "\<forall>p\<in>set inputs. p \<noteq> None"
    using a by (auto simp: in_set_conv_nth)
  have tt: "inputs \<noteq> [] \<longrightarrow> txp \<noteq> None" using t by simp
  show ?thesis using le nn tt deref_Return_imp [OF d] i by simp
qed

lemma decorated_Panic_iff:
  "(decorated decorators props txp m inputs = Panic) =
     (length props < length inputs \<or> None \<in> set inputs \<or> (inputs \<noteq> [] \<and> txp = None))"
proof (cases "decorated decorators props txp m inputs")
  case Panic
  have "length props < length inputs \<or> None \<in> set inputs \<or> (inputs \<noteq> [] \<and> txp = None)"
  proof (rule ccontr)
    assume n: "\<not> ?thesis"
    then have le: "length inputs \<le> length props" by simp
    have nin: "None \<notin> set inputs" using n by simp
    have nn: "\<forall>p\<in>set inputs. p \<noteq> None"
    proof (intro ballI notI)
      fix p assume "p \<in> set inputs" "p = None"
      then show False using nin by simp
    qed
    show False
    proof (cases txp)
      case None
      then have "inputs = []" using n by simp
      then have "decorated decorators props txp m inputs = Return (txp, [])"
        by (simp add: decorated_def)
      with Panic show False by simp
    next
      case (Some t)
      from decorated_Return [OF le nn, of decorators t m] Panic Some show False by auto
    qed
  qed
  then show ?thesis using Panic by simp
next
  case (Return r)
  obtain txp' ins where "r = (txp', ins)" by (cases r)
  with Return decorated_Return_imp [of decorators props txp m inputs txp' ins]
  show ?thesis by auto
qed

lemma dispatch_loop_nth:
  assumes "dispatch_loop supports ins go is = (calls, p)"
  shows "length calls \<le> length is
       \<and> (\<forall>k<length calls. \<exists>s. select_support supports ins (is ! k) = Return s
                                 \<and> calls ! k = go (is ! k) s)
       \<and> (p = (\<exists>i\<in>set is. select_support supports ins i = Panic))
       \<and> (\<not> p \<longrightarrow> length calls = length is)"
  using assms
proof (induction "is" arbitrary: calls p)
  case Nil
  then show ?case by simp
next
  case (Cons i "is")
  show ?case
  proof (cases "select_support supports ins i")
    case Panic
    then show ?thesis using Cons.prems by simp
  next
    case (Return s)
    obtain cs q where rest: "dispatch_loop supports ins go is = (cs, q)"
      by (cases "dispatch_loop supports ins go is")
    then have c: "calls = go i s # cs" and pq: "p = q"
      using Cons.prems Return by simp_all
    note ih = Cons.IH [OF rest]
    have nth: "\<forall>k<length calls. \<exists>s'. select_support supports ins ((i # is) ! k) = Return s'
                                 \<and> calls ! k = go ((i # is) ! k) s'"
    proof (intro allI impI)
      fix k assume "k < length calls"
      then show "\<exists>s'. select_support supports ins ((i # is) ! k) = Return s'
                                 \<and> calls ! k = go ((i # is) ! k) s'"
        using ih c Return by (cases k) simp_all
    qed
    show ?thesis using ih c pq Return nth by simp
  qed
qed

lemma select_support_Return:
  assumes "select_support supports ins i = Return s"
  shows "i < length supports \<and> Args (ins ! i) \<noteq> []
       \<and> s = (if hd (Args (ins ! i)) = ''GetConfigBlock'' then last supports else supports ! i)"
proof -
  have i: "i < length supports" using assms by (auto simp: select_support_def split: if_splits)
  then have "supports \<noteq> []" by auto
  then have "last supports = supports ! (length supports - 1)" by (rule last_conv_nth)
  then show ?thesis
    using assms i by (auto simp: select_support_def split: list.splits if_splits)
qed

lemma select_support_Panic:
  "(select_support supports ins i = Panic) = (length supports \<le> i \<or> Args (ins ! i) = [])"
  by (auto simp: select_support_def split: list.splits)

lemma dispatched_nth:
  assumes "dispatched supports txp name version ins = (calls, p)" "k < length calls"
  shows "k < length ins \<and> k < length supports \<and> Args (ins ! k) \<noteq> []
       \<and> calls ! k = task_call txp name version ins k
            (if hd (Args (ins ! k)) = ''GetConfigBlock'' then last supports else supports ! k)"
proof -
  from dispatch_loop_nth [OF assms(1) [unfolded dispatched_def]]
  have len: "length calls \<le> length [0..<length ins]"
    and nth: "\<forall>k<length calls. \<exists>s. select_support supports ins ([0..<length ins] ! k) = Return s
                 \<and> calls ! k = task_call txp name version ins ([0..<length ins] ! k) s"
    by blast+
  have kl: "k < length ins" using len assms(2) by simp
  then have "[0..<length ins] ! k = k" by simp
  with nth assms(2) obtain s where
    s: "select_support supports ins k = Return s" "calls ! k = task_call txp name version ins k s"
    by metis
  show ?thesis using kl s select_support_Return [OF s(1)] by simp
qed

lemma dispatched_all:
  assumes "length ins \<le> length supports" "\<forall>inp\<in>set ins. Args inp \<noteq> []"
  shows "\<exists>calls. dispatched supports txp name version ins = (calls, False)
           \<and> length calls = length ins"
proof -
  obtain calls p where d: "dispatched supports txp name version ins = (calls, p)"
    by (cases "dispatched supports txp name version ins")
  from dispatch_loop_nth [OF d [unfolded dispatched_def]]
  have p: "p = (\<exists>i\<in>set [0..<length ins]. select_support supports ins i = Panic)"
    and l: "\<not> p \<longrightarrow> length calls = length [0..<length ins]"
    by blast+
  have "\<not> p" using p assms by (auto simp: select_support_Panic)
  then show ?thesis using d l by simp
qed

section \<open>The goroutines and the aggregation loop: invariant, progress, termination\<close>

lemma total_update:
  assumes "i < length (pcs s)"
  shows "total f (s\<lparr>pcs := (pcs s)[i := pc]\<rparr>) + f (pcs s ! i) = total f s + f pc"
proof -
  have "sum_list ((map f (pcs s))[i := f pc]) = sum_list (map f (pcs s)) + f pc - map f (pcs s) ! i"
    using assms by (simp add: sum_list_update)
  moreover have "map f (pcs s) ! i \<le> sum_list (map f (pcs s))"
    using assms by (simp add: member_le_sum_list)
  ultimately show ?thesis using assms by (simp add: total_def map_update)
qed

lemma total_other [simp]:
  "total f (s\<lparr>cRes := a\<rparr>) = total f s"
  "total f (s\<lparr>cCCEvt := b\<rparr>) = total f s"
  "total f (s\<lparr>cErr := c\<rparr>) = total f s"
  "total f (s\<lparr>apc := d\<rparr>) = total f s"
  "total f (s\<lparr>err := e\<rparr>) = total f s"
  "total f (s\<lparr>resps := g\<rparr>) = total f s"
  "total f (s\<lparr>ccEvents := h\<rparr>) = total f s"
  by (simp_all add: total_def)

lemma coord_inv_init: "0 < n \<Longrightarrow> coord_inv n (init n)"
  by (simp add: coord_inv_def init_def total_def sum_list_replicate)


lemma task_step_inv:
  assumes st: "task_step outs i s = Some s'" and inv: "coord_inv n s"
  shows "coord_inv n s' \<and> total task_left s' + 1 = total task_left s \<and> agg_done s' = agg_done s"
proof -
  have i: "i < length (pcs s)"
    using st by (simp add: task_step_def split: if_splits)
  note upd = total_update [OF i, of evt_sent] total_update [OF i, of err_sent]
    total_update [OF i, of res_sent] total_update [OF i, of task_left]
  show ?thesis
  proof (cases "pcs s ! i")
    case Calling
    then obtain out where s': "s' = s\<lparr>pcs := (pcs s)[i := SendEvent out]\<rparr>"
      using st by (auto simp: task_step_def split: if_splits option.splits)
    show ?thesis
      using inv upd [of "SendEvent out"] Calling
      by (simp add: s' coord_inv_def agg_done_def)
  next
    case (SendEvent out)
    then have s': "s' = s\<lparr>pcs := (pcs s)[i := SendErr out], cCCEvt := cCCEvt s @ [event out]\<rparr>"
      using st by (auto simp: task_step_def split: if_splits)
    show ?thesis
      using inv upd [of "SendErr out"] SendEvent
      by (simp add: s' coord_inv_def agg_done_def)
  next
    case (SendErr out)
    then have s': "s' = s\<lparr>pcs := (pcs s)[i := SendRes out], cErr := cErr s @ [task_err out]\<rparr>"
      using st by (auto simp: task_step_def split: if_splits)
    show ?thesis
      using inv upd [of "SendRes out"] SendErr
      by (simp add: s' coord_inv_def agg_done_def)
  next
    case (SendRes out)
    then have s': "s' = s\<lparr>pcs := (pcs s)[i := Finished], cRes := cRes s @ [response out]\<rparr>"
      using st by (auto simp: task_step_def split: if_splits)
    show ?thesis
      using inv upd [of Finished] SendRes
      by (simp add: s' coord_inv_def agg_done_def)
  next
    case Finished
    then show ?thesis using st by (simp add: task_step_def split: if_splits)
  qed
qed

lemma agg_step_inv:
  assumes st: "agg_step n s = Some s'" and inv: "coord_inv n s"
  shows "coord_inv n s' \<and> total task_left s' = total task_left s \<and> agg_done s' = agg_done s + 1"
proof (cases "apc s")
  case RecvErr
  then obtain e q where q: "cErr s = e # q" and s': "s' = s\<lparr>cErr := q, apc := RecvRes, err := e\<rparr>"
    using st by (auto simp: agg_step_def split: list.splits)
  show ?thesis using inv RecvErr q by (simp add: s' coord_inv_def agg_done_def)
next
  case RecvRes
  then obtain r q where q: "cRes s = r # q" and s': "s' = s\<lparr>cRes := q, apc := RecvEvent r\<rparr>"
    using st by (auto simp: agg_step_def split: list.splits)
  show ?thesis using inv RecvRes q by (simp add: s' coord_inv_def agg_done_def)
next
  case (RecvEvent r)
  then obtain v q where q: "cCCEvt s = v # q" and s': "s' = collect n r v (s\<lparr>cCCEvt := q\<rparr>)"
    using st by (auto simp: agg_step_def split: list.splits)
  have k: "length (resps s) < n" using inv RecvEvent by (simp add: coord_inv_def)
  show ?thesis
  proof (cases "Suc (length (resps s)) \<ge> n")
    case True
    then have "Suc (length (resps s)) = n" using k by simp
    then show ?thesis
      using inv RecvEvent q True by (simp add: s' collect_def Let_def coord_inv_def agg_done_def)
  next
    case False
    then show ?thesis
      using inv RecvEvent q by (simp add: s' collect_def Let_def coord_inv_def agg_done_def)
  qed
next
  case Exited
  then show ?thesis using st by (simp add: agg_step_def)
qed

lemma exec_sched_inv:
  assumes "exec_sched outs sched s = Some s'" and "coord_inv (length outs) s"
  shows "coord_inv (length outs) s'
       \<and> length sched + total task_left s' + agg_done s = total task_left s + agg_done s'
       \<and> count_list sched Aggregate + agg_done s = agg_done s'"
  using assms
proof (induction sched arbitrary: s)
  case Nil
  then show ?case by simp
next
  case (Cons a sched)
  from Cons.prems(1) obtain s1 where
    s1: "step outs a s = Some s1" and rest: "exec_sched outs sched s1 = Some s'"
    by (auto split: option.splits)
  show ?case
  proof (cases a)
    case (Task i)
    then have "task_step outs i s = Some s1" using s1 by simp
    from task_step_inv [OF this Cons.prems(2)] Cons.IH [OF rest] Task
    show ?thesis by simp
  next
    case Aggregate
    then have "agg_step (length outs) s = Some s1" using s1 by simp
    from agg_step_inv [OF this Cons.prems(2)] Cons.IH [OF rest] Aggregate
    show ?thesis by simp
  qed
qed

lemma sum_list_less_nth:
  fixes f g :: "'a \<Rightarrow> nat"
  assumes "sum_list (map f xs) < sum_list (map g xs)"
  shows "\<exists>i<length xs. f (xs ! i) < g (xs ! i)"
proof (rule ccontr)
  assume "\<not> ?thesis"
  then have "\<forall>x\<in>set xs. g x \<le> f x"
    by (metis in_set_conv_nth not_less)
  then have "sum_list (map g xs) \<le> sum_list (map f xs)"
    by (simp add: sum_list_mono)
  with assms show False by simp
qed

lemma total_less_nth:
  assumes "total f s < total g s"
  shows "\<exists>i<length (pcs s). f (pcs s ! i) < g (pcs s ! i)"
  using sum_list_less_nth [of f "pcs s" g] assms by (simp add: total_def)

lemma total_length: "total (\<lambda>pc. Suc 0) s = length (pcs s)"
  by (simp add: total_def sum_list_triv)

lemma total_mono:
  assumes "\<And>pc. f pc \<le> g pc"
  shows "total f s \<le> total g s"
  using assms by (simp add: total_def sum_list_mono)

lemma res_le_err: "res_sent pc \<le> err_sent pc"
  by (cases pc) simp_all

lemma err_le_evt: "err_sent pc \<le> evt_sent pc"
  by (cases pc) simp_all

lemma evt_le_one: "evt_sent pc \<le> Suc 0"
  by (cases pc) simp_all

lemma progress:
  assumes inv: "coord_inv (length outs) s"
    and outs: "\<forall>out\<in>set outs. out \<noteq> None"
    and run: "apc s \<noteq> Exited"
  shows "\<exists>a. step outs a s \<noteq> None"
proof -
  let ?n = "length outs"
  have len: "length (pcs s) = ?n" using inv by (simp add: coord_inv_def)
  have k: "length (resps s) < ?n" using inv run by (simp add: coord_inv_def)
  have evt: "total evt_sent s = length (resps s) + length (cCCEvt s)"
    and err: "total err_sent s = length (resps s) + err_recv (apc s) + length (cErr s)"
    and res: "total res_sent s = length (resps s) + res_recv (apc s) + length (cRes s)"
    using inv by (simp_all add: coord_inv_def)
  have task: "\<exists>a. step outs a s \<noteq> None" if "i < length (pcs s)" "task_step outs i s \<noteq> None" for i
  proof -
    have "step outs (Task i) s \<noteq> None" using that by simp
    then show ?thesis by blast
  qed
  have agg: "\<exists>a. step outs a s \<noteq> None" if "agg_step ?n s \<noteq> None"
  proof -
    have "step outs Aggregate s \<noteq> None" using that by simp
    then show ?thesis by blast
  qed
  show ?thesis
  proof (cases "apc s")
    case RecvErr
    show ?thesis
    proof (cases "cErr s")
      case (Cons e q)
      then show ?thesis using RecvErr by (intro agg) (simp add: agg_step_def)
    next
      case Nil
      have "total err_sent s < total (\<lambda>pc. Suc 0) s"
        using err RecvErr Nil k len by (simp add: total_length)
      from total_less_nth [OF this] obtain i where
        i: "i < length (pcs s)" and ei: "err_sent (pcs s ! i) = 0" by auto
      have io: "i < length outs" using i len by simp
      then have oi: "outs ! i \<noteq> None" using outs by simp
      show ?thesis
      proof (cases "pcs s ! i")
        case Calling
        then show ?thesis using i io oi by (intro task [of i]) (auto simp: task_step_def)
      next
        case (SendErr out)
        then show ?thesis using i io Nil
          by (intro task [of i]) (auto simp: task_step_def chan_cap_def)
      next
        case (SendEvent out)
        show ?thesis
        proof (cases "length (cCCEvt s) < chan_cap")
          case True
          then show ?thesis using i io SendEvent
            by (intro task [of i]) (auto simp: task_step_def)
        next
          case False
          then have "2 \<le> length (cCCEvt s)" by (simp add: chan_cap_def)
          moreover have "total err_sent s = length (resps s)"
            using err RecvErr Nil by simp
          ultimately have "total err_sent s < total evt_sent s"
            using evt by linarith
          from total_less_nth [OF this] obtain j where
            j: "j < length (pcs s)" and lt: "err_sent (pcs s ! j) < evt_sent (pcs s ! j)" by auto
          then obtain out' where "pcs s ! j = SendErr out'"
            by (cases "pcs s ! j") simp_all
          then show ?thesis using j len Nil
            by (intro task [of j]) (auto simp: task_step_def chan_cap_def)
        qed
      next
        case (SendRes out)
        then show ?thesis using ei by simp
      next
        case Finished
        then show ?thesis using ei by simp
      qed
    qed
  next
    case RecvRes
    show ?thesis
    proof (cases "cRes s")
      case (Cons r q)
      then show ?thesis using RecvRes by (intro agg) (simp add: agg_step_def)
    next
      case Nil
      have "total res_sent s < total err_sent s"
        using err res RecvRes Nil by simp
      from total_less_nth [OF this] obtain j where
        j: "j < length (pcs s)" and lt: "res_sent (pcs s ! j) < err_sent (pcs s ! j)" by auto
      then obtain out' where "pcs s ! j = SendRes out'"
        by (cases "pcs s ! j") simp_all
      then show ?thesis using j len Nil
        by (intro task [of j]) (auto simp: task_step_def chan_cap_def)
    qed
  next
    case (RecvEvent r)
    have "total err_sent s \<le> total evt_sent s"
      by (rule total_mono) (rule err_le_evt)
    then have "cCCEvt s \<noteq> []" using evt err RecvEvent by auto
    then show ?thesis using RecvEvent
      by (intro agg) (auto simp: agg_step_def split: list.splits)
  next
    case Exited
    then show ?thesis using run by simp
  qed
qed

lemma agg_done_le:
  assumes "coord_inv n s"
  shows "agg_done s \<le> 3 * n" and "apc s = Exited \<Longrightarrow> agg_done s = 3 * n"
    and "apc s \<noteq> Exited \<Longrightarrow> agg_done s < 3 * n"
proof -
  show "apc s = Exited \<Longrightarrow> agg_done s = 3 * n"
    using assms by (simp add: coord_inv_def agg_done_def)
  show lt: "apc s \<noteq> Exited \<Longrightarrow> agg_done s < 3 * n"
    using assms by (cases "apc s") (simp_all add: coord_inv_def agg_done_def)
  show "agg_done s \<le> 3 * n"
    using lt assms by (cases "apc s = Exited") (simp_all add: coord_inv_def agg_done_def)
qed

lemma exec_sched_append:
  "exec_sched outs (xs @ ys) s =
     (case exec_sched outs xs s of None \<Rightarrow> None | Some s1 \<Rightarrow> exec_sched outs ys s1)"
  by (induction xs arbitrary: s) (simp_all split: option.splits)

lemma can_finish:
  assumes "coord_inv (length outs) s" and "\<forall>out\<in>set outs. out \<noteq> None"
  shows "\<exists>sched s'. exec_sched outs sched s = Some s' \<and> apc s' = Exited"
  using assms(1)
proof (induction "total task_left s + (3 * length outs - agg_done s)" arbitrary: s rule: less_induct)
  case less
  show ?case
  proof (cases "apc s = Exited")
    case True
    then have "exec_sched outs [] s = Some s \<and> apc s = Exited" by simp
    then show ?thesis by blast
  next
    case False
    from progress [OF less.prems assms(2) False] obtain a s1 where
      a: "step outs a s = Some s1" by auto
    have s1: "coord_inv (length outs) s1
        \<and> total task_left s1 + (3 * length outs - agg_done s1)
            < total task_left s + (3 * length outs - agg_done s)"
    proof (cases a)
      case (Task i)
      then have "task_step outs i s = Some s1" using a by simp
      from task_step_inv [OF this less.prems] show ?thesis by simp
    next
      case Aggregate
      then have "agg_step (length outs) s = Some s1" using a by simp
      from agg_step_inv [OF this less.prems] agg_done_le(3) [OF less.prems False]
      show ?thesis by simp
    qed
    from less.hyps [of s1] s1 obtain sched s' where
      r: "exec_sched outs sched s1 = Some s'" "apc s' = Exited" by blast
    have "exec_sched outs (a # sched) s = Some s'" using a r by simp
    then show ?thesis using r(2) by blast
  qed
qed

lemma sum_list_full:
  fixes f :: "'a \<Rightarrow> nat"
  assumes "\<forall>x\<in>set xs. f x \<le> Suc 0" and "length xs \<le> sum_list (map f xs)"
  shows "\<forall>x\<in>set xs. f x = Suc 0"
  using assms
proof (induction xs)
  case Nil
  then show ?case by simp
next
  case (Cons a xs)
  have "sum_list (map f xs) \<le> sum_list (map (\<lambda>x. Suc 0) xs)"
    using Cons.prems(1) by (intro sum_list_mono) simp
  then have le: "sum_list (map f xs) \<le> length xs" by (simp add: sum_list_triv)
  have a: "f a \<le> Suc 0" using Cons.prems(1) by simp
  have su: "Suc (length xs) \<le> f a + sum_list (map f xs)"
    using Cons.prems(2) by simp
  have fa: "f a = Suc 0" using su le a by linarith
  have "length xs \<le> sum_list (map f xs)" using su le a by linarith
  then have "\<forall>x\<in>set xs. f x = Suc 0" using Cons.IH Cons.prems(1) by simp
  then show ?case using fa by simp
qed

lemma exited_all_done:
  assumes inv: "coord_inv n s" and ex: "apc s = Exited"
  shows "pcs s = replicate n Finished \<and> cRes s = [] \<and> cErr s = [] \<and> cCCEvt s = []
       \<and> length (resps s) = n \<and> length (ccEvents s) = n"
proof -
  have len: "length (pcs s) = n" and k: "length (resps s) = n" and ke: "length (ccEvents s) = n"
    and evt: "total evt_sent s = n + length (cCCEvt s)"
    and err: "total err_sent s = n + length (cErr s)"
    and res: "total res_sent s = n + length (cRes s)"
    using inv ex by (simp_all add: coord_inv_def)
  have b1: "total res_sent s \<le> total err_sent s" by (rule total_mono) (rule res_le_err)
  have b2: "total err_sent s \<le> total evt_sent s" by (rule total_mono) (rule err_le_evt)
  have b3: "total evt_sent s \<le> total (\<lambda>pc. Suc 0) s" by (rule total_mono) (rule evt_le_one)
  have b4: "total evt_sent s \<le> n" using b3 len by (simp add: total_length)
  have "length (cRes s) = 0" "length (cErr s) = 0" "length (cCCEvt s) = 0"
    using evt err res b1 b2 b4 by linarith+
  then have q: "cRes s = []" "cErr s = []" "cCCEvt s = []" by simp_all
  have "res_sent pc \<le> Suc 0" for pc :: "('a, 'b) task_pc"
    by (cases pc) simp_all
  then have r1: "\<forall>pc\<in>set (pcs s). res_sent pc \<le> Suc 0" by simp
  have "length (pcs s) \<le> sum_list (map res_sent (pcs s))"
    using res q len by (simp add: total_def)
  from sum_list_full [OF r1 this]
  have "\<forall>i<length (pcs s). res_sent (pcs s ! i) = Suc 0" by simp
  moreover have "pc = Finished" if "res_sent pc = Suc 0" for pc :: "('a, 'b) task_pc"
    using that by (cases pc) simp_all
  ultimately have "\<forall>i<length (pcs s). pcs s ! i = Finished" by simp
  then have "pcs s = replicate n Finished"
    using len by (simp add: list_eq_iff_nth_eq)
  then show ?thesis using q k ke by simp
qed

lemma no_error_update:
  assumes "\<forall>pc\<in>set xs. held_err pc = None" and "held_err pc' = None"
  shows "\<forall>pc\<in>set (xs[i := pc']). held_err pc = None"
  using assms set_update_subset_insert [of xs i pc'] by auto

lemma task_step_no_error:
  assumes st: "task_step outs i s = Some s'" and ne: "no_error s"
    and outs: "\<forall>r\<in>set outs. \<exists>out. r = Some out \<and> task_err out = None"
  shows "no_error s'"
proof -
  have i: "i < length (pcs s)" "i < length outs"
    using st by (simp_all add: task_step_def split: if_splits)
  have pcs: "\<forall>pc\<in>set (pcs s). held_err pc = None" using ne by (simp add: no_error_def)
  have hi: "held_err (pcs s ! i) = None" using pcs i by simp
  show ?thesis
  proof (cases "pcs s ! i")
    case Calling
    obtain out where oi: "outs ! i = Some out" "task_err out = None"
      using outs i(2) nth_mem by blast
    then have s': "s' = s\<lparr>pcs := (pcs s)[i := SendEvent out]\<rparr>"
      using st Calling i by (simp add: task_step_def)
    show ?thesis
      using ne no_error_update [OF pcs, of "SendEvent out" i] oi(2)
      by (simp add: s' no_error_def)
  next
    case (SendEvent out)
    then have s': "s' = s\<lparr>pcs := (pcs s)[i := SendErr out], cCCEvt := cCCEvt s @ [event out]\<rparr>"
      using st by (auto simp: task_step_def split: if_splits)
    show ?thesis
      using ne no_error_update [OF pcs, of "SendErr out" i] hi SendEvent
      by (simp add: s' no_error_def)
  next
    case (SendErr out)
    then have s': "s' = s\<lparr>pcs := (pcs s)[i := SendRes out], cErr := cErr s @ [task_err out]\<rparr>"
      using st by (auto simp: task_step_def split: if_splits)
    show ?thesis
      using ne no_error_update [OF pcs, of "SendRes out" i] hi SendErr
      by (simp add: s' no_error_def)
  next
    case (SendRes out)
    then have s': "s' = s\<lparr>pcs := (pcs s)[i := Finished], cRes := cRes s @ [response out]\<rparr>"
      using st by (auto simp: task_step_def split: if_splits)
    show ?thesis
      using ne no_error_update [OF pcs, of Finished i]
      by (simp add: s' no_error_def)
  next
    case Finished
    then show ?thesis using st by (simp add: task_step_def split: if_splits)
  qed
qed

lemma agg_step_no_error:
  assumes st: "agg_step n s = Some s'" and ne: "no_error s"
  shows "no_error s'"
  using assms
  by (cases "apc s")
    (auto simp: agg_step_def no_error_def collect_def Let_def split: list.splits if_splits)

lemma exec_sched_no_error:
  assumes "exec_sched outs sched s = Some s'" and "no_error s"
    and "\<forall>r\<in>set outs. \<exists>out. r = Some out \<and> task_err out = None"
  shows "no_error s'"
  using assms(1,2)
proof (induction sched arbitrary: s)
  case Nil
  then show ?case by simp
next
  case (Cons a sched)
  from Cons.prems(1) obtain s1 where
    s1: "step outs a s = Some s1" and rest: "exec_sched outs sched s1 = Some s'"
    by (auto split: option.splits)
  have "no_error s1"
  proof (cases a)
    case (Task i)
    then have "task_step outs i s = Some s1" using s1 by simp
    from task_step_no_error [OF this Cons.prems(2) assms(3)] show ?thesis .
  next
    case Aggregate
    then have "agg_step (length outs) s = Some s1" using s1 by simp
    from agg_step_no_error [OF this Cons.prems(2)] show ?thesis .
  qed
  from Cons.IH [OF rest this] show ?case .
qed

lemma no_error_init: "no_error (init n)"
  by (simp add: no_error_def init_def)

lemma exec_sched_empty_batch:
  "exec_sched [] sched (init 0) = (if sched = [] then Some (init 0) else None)"
proof (cases sched)
  case Nil
  then show ?thesis by simp
next
  case (Cons a sched')
  then show ?thesis
    by (cases a) (simp_all add: task_step_def agg_step_def init_def)
qed

section \<open>Ledger delegation and access control\<close>

text \<open>
  Claim C8. When the peer has no ledger handle for a channel (\<open>GetLedger\<close> returns nil),
  each of \<open>NewQueryCreator\<close>, \<open>GetTxSimulator\<close>, \<open>GetHistoryQueryExecutor\<close>,
  \<open>GetTransactionByID\<close> and \<open>GetLedgerHeight\<close> returns the zero value of its result type
  (nil, or height 0) with a non-nil error whose message names the channel, and the only
  call it has made is the lookup itself.
\<close>

theorem missing_ledger:
  assumes "GetLedger channel = None"
  shows "NewQueryCreator GetLedger channel =
           ((None, Some (Errorf (''channel '' @ channel @ '' doesn'' @ [CHR 0x27] @ ''t exist''))),
            [CallGetLedger channel])
       \<and> GetTxSimulator GetLedger channel txid =
           ((None, Some (Errorf (''Channel does not exist: '' @ channel))), [CallGetLedger channel])
       \<and> GetHistoryQueryExecutor GetLedger channel =
           ((None, Some (Errorf (''Channel does not exist: '' @ channel))), [CallGetLedger channel])
       \<and> SupportImpl_GetTransactionByID GetLedger channel txid =
           ((None, Some (Errorf (''failed to look up the ledger for Channel '' @ channel))),
            [CallGetLedger channel])
       \<and> GetLedgerHeight GetLedger channel =
           (Return (0, Some (Errorf (''failed to look up the ledger for Channel '' @ channel))),
            [CallGetLedger channel])"
  using assms
  by (simp add: NewQueryCreator_def GetTxSimulator_def GetHistoryQueryExecutor_def
      SupportImpl_GetTransactionByID_def GetLedgerHeight_def)

theorem missing_ledger_witness:
  "((\<lambda>c. None) :: (unit, unit, unit) Peer) ''mychannel'' = None
   \<and> GetLedgerHeight ((\<lambda>c. None) :: (unit, unit, unit) Peer) ''mychannel'' =
       (Return (0, Some (Errorf ''failed to look up the ledger for Channel mychannel'')),
        [CallGetLedger ''mychannel''])
   \<and> GetTxSimulator ((\<lambda>c. None) :: (unit, unit, unit) Peer) ''mychannel'' ''tx1'' =
       ((None, Some (Errorf ''Channel does not exist: mychannel'')), [CallGetLedger ''mychannel''])"
proof -
  have h: "((\<lambda>c. None) :: (unit, unit, unit) Peer) ''mychannel'' = None" by simp
  show ?thesis using h missing_ledger [OF h, where txid = "''tx1''"] by simp
qed

text \<open>
  Claim C10. The result of \<open>CheckACL\<close> depends only on the signed proposal and on the
  \<open>ChannelId\<close> field of the channel header: two calls with the same signed proposal whose
  channel headers are both nil, or both carry the same \<open>ChannelId\<close>, return the same
  result whatever the signature headers, the header extensions and the other fields of
  the channel headers are.
\<close>

theorem CheckACL_depends_on_ChannelId:
  assumes "map_option ChannelId chdr = map_option ChannelId chdr'"
  shows "CheckACL aclProvider Peer_Propose signedProp chdr shdr hdrext
       = CheckACL aclProvider Peer_Propose signedProp chdr' shdr' hdrext'"
  using assms by (cases chdr; cases chdr') (auto simp: CheckACL_def)

theorem CheckACL_depends_on_ChannelId_witness:
  "map_option ChannelId (Some \<lparr>ChannelId = ''ch1'', \<dots> = (1::nat)\<rparr>)
     = map_option ChannelId (Some \<lparr>ChannelId = ''ch1'', \<dots> = (2::nat)\<rparr>)
   \<and> CheckACL (\<lambda>r c sp. if c = ''ch1'' \<and> sp = ''alice'' then None
                         else Some (Errorf ''access denied''))
       ''peer/Propose'' ''alice'' (Some \<lparr>ChannelId = ''ch1'', \<dots> = (1::nat)\<rparr>) ''creatorA'' ''extA''
   = CheckACL (\<lambda>r c sp. if c = ''ch1'' \<and> sp = ''alice'' then None
                         else Some (Errorf ''access denied''))
       ''peer/Propose'' ''alice'' (Some \<lparr>ChannelId = ''ch1'', \<dots> = (2::nat)\<rparr>) ''creatorB'' ''extB''"
proof -
  have h: "map_option ChannelId (Some \<lparr>ChannelId = ''ch1'', \<dots> = (1::nat)\<rparr>)
         = map_option ChannelId (Some \<lparr>ChannelId = ''ch1'', \<dots> = (2::nat)\<rparr>)" by simp
  show ?thesis
    using h CheckACL_depends_on_ChannelId [OF h,
        of "\<lambda>r c sp. if c = ''ch1'' \<and> sp = ''alice'' then None else Some (Errorf ''access denied'')"
           "''peer/Propose''" "''alice''" "''creatorA''" "''extA''" "''creatorB''" "''extB''"]
    by simp
qed

section \<open>Decoration\<close>

text \<open>
  One pass of the first loop, after the passes before it: it empties the decoration
  mapping of the message at \<open>inputs[i]\<close>, leaves there what the decorators make of the
  emptied message, stores these decorations in \<open>txParams\<close>, and changes nothing else.
\<close>

lemma decorate_loop_pass:
  assumes "i < length props" and "\<forall>j<i. inputs ! j \<noteq> None" and "inputs ! i = Some a"
  shows "\<exists>tx mi.
           decorate_loop decorators props [0..<i] (Some t, m, inputs) = Return (Some tx, mi, inputs)
         \<and> decorate_loop decorators props [0..<Suc i] (Some t, m, inputs) =
             Return (Some (tx\<lparr>ProposalDecorations :=
                              Decorations (decorate_value (props ! i)
                                ((m a)\<lparr>Decorations := Map.empty\<rparr>) decorators)\<rparr>),
                     mi(a := decorate_value (props ! i) ((m a)\<lparr>Decorations := Map.empty\<rparr>) decorators),
                     inputs)"
proof -
  have le: "i \<le> length props" using assms(1) by simp
  from decorate_loop_upt [OF le assms(2), of decorators t m] obtain tx mi where
    r: "decorate_loop decorators props [0..<i] (Some t, m, inputs) = Return (Some tx, mi, inputs)"
    and ar: "\<forall>a. Args (mi a) = Args (m a)"
    by blast
  have em: "(mi a)\<lparr>Decorations := Map.empty\<rparr> = (m a)\<lparr>Decorations := Map.empty\<rparr>"
    using ar by (intro emptied_eq) simp
  have "decorate_loop decorators props [0..<Suc i] (Some t, m, inputs) =
             Return (Some (tx\<lparr>ProposalDecorations :=
                              Decorations (decorate_value (props ! i)
                                ((m a)\<lparr>Decorations := Map.empty\<rparr>) decorators)\<rparr>),
                     mi(a := decorate_value (props ! i) ((m a)\<lparr>Decorations := Map.empty\<rparr>) decorators),
                     inputs)"
    using r decorate_input_Return [OF assms(3,1), of decorators tx mi] em
    by (simp add: decorate_loop_append)
  with r show ?thesis by blast
qed

text \<open>
  A nil pointer in \<open>inputs\<close>, a missing proposal, or a nil \<open>txParams\<close> with a batch that
  is not empty makes the first loop panic, and with it \<open>Execute\<close>.
\<close>

lemma Execute_decoration_panics:
  assumes "length props < length inputs \<or> None \<in> set inputs \<or> (inputs \<noteq> [] \<and> txParams = None)"
  shows "Execute exec decorators supports m txParams cid name version txid signedProp props inputs
           sched = Panicked"
  using assms decorated_Panic_iff [of decorators props txParams m inputs]
  by (simp add: Execute_def)

text \<open>
  Claim C7. For every batch in which every input has its proposal and neither
  \<open>txParams\<close> nor a pointer of \<open>inputs\<close> is nil, the first loop of \<open>Execute\<close>
  completes before any task is started, and
  it takes the inputs one after the other in index order: pass \<open>i\<close> starts from what the
  passes \<open>0..i-1\<close> have left, empties the decoration mapping of the message at
  \<open>inputs[i]\<close> and leaves there (and nowhere else) what the registered decorators, applied
  in registration order, make of the emptied message, decorator \<open>k\<close> being handed what
  decorators \<open>0..k-1\<close> made of it. So after the loop every position holds what the last
  pass that reached its message left (for a pointer that stands at two positions, the
  later pass at both), \<open>txParams\<close> holds the decorations of the last input, the result
  does not depend on the decorations the caller supplied, and every goroutine that is
  started passes the message of its index as the loop left it.
\<close>

theorem decoration_pass:
  assumes "length inputs \<le> length props" and "\<forall>p\<in>set inputs. p \<noteq> None"
  shows "\<exists>txp ins.
           decorated decorators props (Some t) m inputs = Return (txp, ins)
         \<and> txp = Some (if inputs = [] then t
                        else t\<lparr>ProposalDecorations := Decorations (last ins)\<rparr>)
         \<and> length ins = length inputs
         \<and> (\<forall>i<length inputs. \<forall>a. inputs ! i = Some a \<longrightarrow>
              (\<exists>tx mi.
                 decorate_loop decorators props [0..<i] (Some t, m, inputs)
                   = Return (Some tx, mi, inputs)
               \<and> decorate_loop decorators props [0..<Suc i] (Some t, m, inputs)
                   = Return (Some (tx\<lparr>ProposalDecorations :=
                                        Decorations (decorate_value (props ! i)
                                          ((m a)\<lparr>Decorations := Map.empty\<rparr>) decorators)\<rparr>),
                             mi(a := decorate_value (props ! i)
                                       ((m a)\<lparr>Decorations := Map.empty\<rparr>) decorators),
                             inputs))
              \<and> (\<forall>k<length decorators.
                   decorate_value (props ! i) ((m a)\<lparr>Decorations := Map.empty\<rparr>)
                     (take (Suc k) decorators)
                   = (decorate_value (props ! i) ((m a)\<lparr>Decorations := Map.empty\<rparr>)
                        (take k decorators))
                       \<lparr>Decorations := (decorators ! k) (props ! i)
                          (decorate_value (props ! i) ((m a)\<lparr>Decorations := Map.empty\<rparr>)
                             (take k decorators))\<rparr>)
              \<and> (\<exists>l<length inputs. inputs ! l = Some a
                   \<and> (\<forall>l'<length inputs. l < l' \<longrightarrow> inputs ! l' \<noteq> Some a)
                   \<and> ins ! i = decorate_value (props ! l)
                                 ((m a)\<lparr>Decorations := Map.empty\<rparr>) decorators))
         \<and> (\<forall>m'. (\<forall>a. Args (m' a) = Args (m a))
              \<longrightarrow> decorated decorators props (Some t) m' inputs = Return (txp, ins))
         \<and> (\<forall>calls panicked k.
              dispatched supports txp name version ins = (calls, panicked) \<and> k < length calls
              \<longrightarrow> arg_input (calls ! k) = ins ! k)"
proof -
  let ?n = "length inputs"
  from decorated_Return [OF assms, of decorators t m] obtain ins where
    r: "decorated decorators props (Some t) m inputs =
          Return (Some (if inputs = [] then t
                        else t\<lparr>ProposalDecorations := Decorations (last ins)\<rparr>), ins)"
    and l: "length ins = ?n"
    and c: "\<forall>j<?n. \<forall>a. inputs ! j = Some a \<longrightarrow>
              (\<exists>i<?n. inputs ! i = Some a
                 \<and> (\<forall>i'<?n. i < i' \<longrightarrow> inputs ! i' \<noteq> Some a)
                 \<and> ins ! j = decorate_value (props ! i)
                               ((m a)\<lparr>Decorations := Map.empty\<rparr>) decorators)"
    by blast
  let ?txp = "Some (if inputs = [] then t
                    else t\<lparr>ProposalDecorations := Decorations (last ins)\<rparr>)"
  have nn: "\<forall>j<?n. inputs ! j \<noteq> None" using assms(2) by simp
  have pass: "\<forall>i<?n. \<forall>a. inputs ! i = Some a \<longrightarrow>
              (\<exists>tx mi.
                 decorate_loop decorators props [0..<i] (Some t, m, inputs)
                   = Return (Some tx, mi, inputs)
               \<and> decorate_loop decorators props [0..<Suc i] (Some t, m, inputs)
                   = Return (Some (tx\<lparr>ProposalDecorations :=
                                        Decorations (decorate_value (props ! i)
                                          ((m a)\<lparr>Decorations := Map.empty\<rparr>) decorators)\<rparr>),
                             mi(a := decorate_value (props ! i)
                                       ((m a)\<lparr>Decorations := Map.empty\<rparr>) decorators),
                             inputs))
              \<and> (\<forall>k<length decorators.
                   decorate_value (props ! i) ((m a)\<lparr>Decorations := Map.empty\<rparr>)
                     (take (Suc k) decorators)
                   = (decorate_value (props ! i) ((m a)\<lparr>Decorations := Map.empty\<rparr>)
                        (take k decorators))
                       \<lparr>Decorations := (decorators ! k) (props ! i)
                          (decorate_value (props ! i) ((m a)\<lparr>Decorations := Map.empty\<rparr>)
                             (take k decorators))\<rparr>)
              \<and> (\<exists>l<?n. inputs ! l = Some a
                   \<and> (\<forall>l'<?n. l < l' \<longrightarrow> inputs ! l' \<noteq> Some a)
                   \<and> ins ! i = decorate_value (props ! l)
                                 ((m a)\<lparr>Decorations := Map.empty\<rparr>) decorators)"
  proof (intro allI impI conjI)
    fix i a assume i: "i < ?n" and a: "inputs ! i = Some a"
    have ip: "i < length props" using i assms(1) by simp
    have before: "\<forall>j<i. inputs ! j \<noteq> None" using nn i by simp
    from decorate_loop_pass [OF ip before a, of decorators t m]
    show "\<exists>tx mi.
                 decorate_loop decorators props [0..<i] (Some t, m, inputs)
                   = Return (Some tx, mi, inputs)
               \<and> decorate_loop decorators props [0..<Suc i] (Some t, m, inputs)
                   = Return (Some (tx\<lparr>ProposalDecorations :=
                                        Decorations (decorate_value (props ! i)
                                          ((m a)\<lparr>Decorations := Map.empty\<rparr>) decorators)\<rparr>),
                             mi(a := decorate_value (props ! i)
                                       ((m a)\<lparr>Decorations := Map.empty\<rparr>) decorators),
                             inputs)" .
    show "\<exists>l<?n. inputs ! l = Some a
                   \<and> (\<forall>l'<?n. l < l' \<longrightarrow> inputs ! l' \<noteq> Some a)
                   \<and> ins ! i = decorate_value (props ! l)
                                 ((m a)\<lparr>Decorations := Map.empty\<rparr>) decorators"
      using c i a by blast
  next
    fix i a k assume "k < length decorators"
    then show "decorate_value (props ! i) ((m a)\<lparr>Decorations := Map.empty\<rparr>)
                     (take (Suc k) decorators)
                   = (decorate_value (props ! i) ((m a)\<lparr>Decorations := Map.empty\<rparr>)
                        (take k decorators))
                       \<lparr>Decorations := (decorators ! k) (props ! i)
                          (decorate_value (props ! i) ((m a)\<lparr>Decorations := Map.empty\<rparr>)
                             (take k decorators))\<rparr>"
      by (rule decorate_value_take_Suc)
  qed
  have discard: "decorated decorators props (Some t) m' inputs = Return (?txp, ins)"
    if ar: "\<forall>a. Args (m' a) = Args (m a)" for m'
  proof -
    from decorated_Return [OF assms, of decorators t m'] obtain ins' where
      r': "decorated decorators props (Some t) m' inputs =
            Return (Some (if inputs = [] then t
                          else t\<lparr>ProposalDecorations := Decorations (last ins')\<rparr>), ins')"
      and l': "length ins' = ?n"
      and c': "\<forall>j<?n. \<forall>a. inputs ! j = Some a \<longrightarrow>
              (\<exists>i<?n. inputs ! i = Some a
                 \<and> (\<forall>i'<?n. i < i' \<longrightarrow> inputs ! i' \<noteq> Some a)
                 \<and> ins' ! j = decorate_value (props ! i)
                                ((m' a)\<lparr>Decorations := Map.empty\<rparr>) decorators)"
      by blast
    have "ins' ! j = ins ! j" if j: "j < ?n" for j
    proof -
      have "inputs ! j \<noteq> None" using nn j by simp
      then obtain a where a: "inputs ! j = Some a" by auto
      from c j a obtain i where
        i: "i < ?n" "inputs ! i = Some a" "\<forall>i'<?n. i < i' \<longrightarrow> inputs ! i' \<noteq> Some a"
        and v: "ins ! j = decorate_value (props ! i) ((m a)\<lparr>Decorations := Map.empty\<rparr>) decorators"
        by blast
      from c' j a obtain i2 where
        i2: "i2 < ?n" "inputs ! i2 = Some a" "\<forall>i'<?n. i2 < i' \<longrightarrow> inputs ! i' \<noteq> Some a"
        and v2: "ins' ! j = decorate_value (props ! i2) ((m' a)\<lparr>Decorations := Map.empty\<rparr>) decorators"
        by blast
      have "\<not> i < i2" using i(3) i2(1,2) by blast
      moreover have "\<not> i2 < i" using i2(3) i(1,2) by blast
      ultimately have same: "i2 = i" by simp
      have "(m' a)\<lparr>Decorations := Map.empty\<rparr> = (m a)\<lparr>Decorations := Map.empty\<rparr>"
        using ar by (intro emptied_eq) simp
      then show ?thesis using v v2 same by simp
    qed
    then have "ins' = ins" using l l' by (simp add: list_eq_iff_nth_eq)
    then show ?thesis using r' by simp
  qed
  have calls: "arg_input (calls ! k) = ins ! k"
    if "dispatched supports ?txp name version ins = (calls, panicked) \<and> k < length calls"
    for calls panicked k
    using dispatched_nth [of supports ?txp name version ins calls panicked k] that
    by (simp add: task_call_def)
  show ?thesis
    using r l pass discard calls by (intro exI [of _ ?txp] exI [of _ ins]) blast
qed

theorem decoration_pass_witness:
  "length [Some (0::addr), Some 0] \<le> length [''alice'', ''bob'']
   \<and> list_all (\<lambda>p. p \<noteq> None) [Some (0::addr), Some 0]
   \<and> decorated
       [\<lambda>p inp. (Decorations inp)(''creator'' \<mapsto> p),
        \<lambda>p inp. (Decorations inp)(''seen'' \<mapsto>
                   (case Decorations inp ''creator'' of None \<Rightarrow> ''nobody'' | Some c \<Rightarrow> c))]
       [''alice'', ''bob'']
       (Some \<lparr>ProposalDecorations = Map.empty\<rparr>)
       (\<lambda>a. \<lparr>Args = [''invoke''], Decorations = [''stale'' \<mapsto> ''x'']\<rparr>)
       [Some 0, Some 0]
     = Return
        (Some \<lparr>ProposalDecorations = [''creator'' \<mapsto> ''bob'', ''seen'' \<mapsto> ''bob'']\<rparr>,
         [\<lparr>Args = [''invoke''], Decorations = [''creator'' \<mapsto> ''bob'', ''seen'' \<mapsto> ''bob'']\<rparr>,
          \<lparr>Args = [''invoke''], Decorations = [''creator'' \<mapsto> ''bob'', ''seen'' \<mapsto> ''bob'']\<rparr>])"
proof -
  let ?inputs = "[Some (0::addr), Some 0]"
  let ?ds = "[\<lambda>p inp. (Decorations inp)(''creator'' \<mapsto> p),
        \<lambda>p inp. (Decorations inp)(''seen'' \<mapsto>
                   (case Decorations inp ''creator'' of None \<Rightarrow> ''nobody'' | Some c \<Rightarrow> c))]
          :: string Decorator list"
  have h1: "length ?inputs \<le> length [''alice'', ''bob'']" by simp
  have h2: "\<forall>p\<in>set ?inputs. p \<noteq> None" by simp
  have la: "list_all (\<lambda>p. p \<noteq> None) ?inputs" by simp
  from decoration_pass [OF h1 h2, where decorators = ?ds
      and t = "\<lparr>ProposalDecorations = Map.empty\<rparr>"
      and m = "\<lambda>a. \<lparr>Args = [''invoke''], Decorations = [''stale'' \<mapsto> ''x'']\<rparr>"
      and supports = "[] :: ChaincodeSupport list" and name = "''mycc''" and version = "''1.0''"]
  obtain txp ins where
    r: "decorated ?ds [''alice'', ''bob''] (Some \<lparr>ProposalDecorations = Map.empty\<rparr>)
          (\<lambda>a. \<lparr>Args = [''invoke''], Decorations = [''stale'' \<mapsto> ''x'']\<rparr>) ?inputs
        = Return (txp, ins)"
    by blast
  have e: "decorated ?ds [''alice'', ''bob''] (Some \<lparr>ProposalDecorations = Map.empty\<rparr>)
          (\<lambda>a. \<lparr>Args = [''invoke''], Decorations = [''stale'' \<mapsto> ''x'']\<rparr>) ?inputs
        = Return
        (Some \<lparr>ProposalDecorations = [''creator'' \<mapsto> ''bob'', ''seen'' \<mapsto> ''bob'']\<rparr>,
         [\<lparr>Args = [''invoke''], Decorations = [''creator'' \<mapsto> ''bob'', ''seen'' \<mapsto> ''bob'']\<rparr>,
          \<lparr>Args = [''invoke''], Decorations = [''creator'' \<mapsto> ''bob'', ''seen'' \<mapsto> ''bob'']\<rparr>])"
    using r by (simp add: decorated_def decorate_input_def)
  show ?thesis by (intro conjI) (rule h1 la e)+
qed

text \<open>
  Claim C9. For a batch with at least one input, after the first loop of \<open>Execute\<close> the
  \<open>ProposalDecorations\<close> field of the shared transaction parameters is the decoration
  mapping of the last input (index \<open>N - 1\<close>), and every goroutine the second loop starts,
  whatever its index, passes these same transaction parameters to its backend.
\<close>

theorem shared_txParams:
  assumes "inputs \<noteq> []"
    and "decorated decorators props txParams m inputs = Return (txp, ins)"
    and "dispatched supports txp name version ins = (calls, panicked)"
  shows "\<exists>t. txp = Some t
       \<and> ProposalDecorations t = Decorations (last ins)
       \<and> length ins = length inputs
       \<and> (\<forall>k<length calls. arg_txParams (calls ! k) = txp
             \<and> arg_txParams (calls ! k) = Some t
             \<and> ProposalDecorations t = Decorations (ins ! (length inputs - 1)))"
proof -
  from decorated_Return_imp [OF assms(2)] assms(1)
  have le: "length inputs \<le> length props" and nn: "\<forall>p\<in>set inputs. p \<noteq> None"
    and tx: "txParams \<noteq> None" and l: "length ins = length inputs"
    by blast+
  from tx obtain t0 where t0: "txParams = Some t0" by auto
  from decorated_Return [OF le nn, of decorators t0 m] assms(1,2) t0
  have t: "txp = Some (t0\<lparr>ProposalDecorations := Decorations (last ins)\<rparr>)"
    by auto
  let ?t = "t0\<lparr>ProposalDecorations := Decorations (last ins)\<rparr>"
  have pd: "ProposalDecorations ?t = Decorations (last ins)" by simp
  have "ins \<noteq> []" using l assms(1) by auto
  then have la: "last ins = ins ! (length inputs - 1)" using l by (simp add: last_conv_nth)
  have "\<forall>k<length calls. arg_txParams (calls ! k) = txp
             \<and> arg_txParams (calls ! k) = Some ?t
             \<and> ProposalDecorations ?t = Decorations (ins ! (length inputs - 1))"
    using t la dispatched_nth [OF assms(3)] by (simp add: task_call_def)
  then show ?thesis using t pd l by (intro exI [of _ ?t]) simp
qed

theorem shared_txParams_witness:
  "[Some (0::addr), Some 1] \<noteq> []
   \<and> decorated [\<lambda>p inp. (Decorations inp)(''creator'' \<mapsto> p)]
       [''alice'', ''bob''] (Some \<lparr>ProposalDecorations = Map.empty\<rparr>)
       (\<lambda>a. if a = 0 then \<lparr>Args = [''invoke''], Decorations = Map.empty\<rparr>
             else \<lparr>Args = [''query''], Decorations = Map.empty\<rparr>)
       [Some 0, Some 1]
     = Return (Some \<lparr>ProposalDecorations = [''creator'' \<mapsto> ''bob'']\<rparr>,
               [\<lparr>Args = [''invoke''], Decorations = [''creator'' \<mapsto> ''alice'']\<rparr>,
                \<lparr>Args = [''query''], Decorations = [''creator'' \<mapsto> ''bob'']\<rparr>])
   \<and> length (fst (dispatched [\<lparr>CCContainerName = ''peer0''\<rparr>, \<lparr>CCContainerName = ''peer1''\<rparr>]
        (Some \<lparr>ProposalDecorations = [''creator'' \<mapsto> ''bob'']\<rparr>) ''mycc'' ''1.0''
        [\<lparr>Args = [''invoke''], Decorations = [''creator'' \<mapsto> ''alice'']\<rparr>,
         \<lparr>Args = [''query''], Decorations = [''creator'' \<mapsto> ''bob'']\<rparr>])) = 2
   \<and> map_option (\<lambda>t. ProposalDecorations t ''creator'') (arg_txParams (fst (dispatched
        [\<lparr>CCContainerName = ''peer0''\<rparr>, \<lparr>CCContainerName = ''peer1''\<rparr>]
        (Some \<lparr>ProposalDecorations = [''creator'' \<mapsto> ''bob'']\<rparr>) ''mycc'' ''1.0''
        [\<lparr>Args = [''invoke''], Decorations = [''creator'' \<mapsto> ''alice'']\<rparr>,
         \<lparr>Args = [''query''], Decorations = [''creator'' \<mapsto> ''bob'']\<rparr>]) ! 0))
     = Some (Some ''bob'')
   \<and> Decorations (arg_input (fst (dispatched
        [\<lparr>CCContainerName = ''peer0''\<rparr>, \<lparr>CCContainerName = ''peer1''\<rparr>]
        (Some \<lparr>ProposalDecorations = [''creator'' \<mapsto> ''bob'']\<rparr>) ''mycc'' ''1.0''
        [\<lparr>Args = [''invoke''], Decorations = [''creator'' \<mapsto> ''alice'']\<rparr>,
         \<lparr>Args = [''query''], Decorations = [''creator'' \<mapsto> ''bob'']\<rparr>]) ! 0)) ''creator''
     = Some ''alice''"
proof -
  let ?inputs = "[Some (0::addr), Some 1]"
  let ?m = "\<lambda>a::addr. if a = 0 then \<lparr>Args = [''invoke''], Decorations = Map.empty\<rparr>
             else \<lparr>Args = [''query''], Decorations = Map.empty\<rparr>"
  let ?ds = "[\<lambda>p inp. (Decorations inp)(''creator'' \<mapsto> p)] :: string Decorator list"
  let ?txp = "Some \<lparr>ProposalDecorations = [''creator'' \<mapsto> ''bob'']\<rparr>"
  let ?ins = "[\<lparr>Args = [''invoke''], Decorations = [''creator'' \<mapsto> ''alice'']\<rparr>,
               \<lparr>Args = [''query''], Decorations = [''creator'' \<mapsto> ''bob'']\<rparr>]"
  let ?sup = "[\<lparr>CCContainerName = ''peer0''\<rparr>, \<lparr>CCContainerName = ''peer1''\<rparr>]"
  let ?d = "dispatched ?sup ?txp ''mycc'' ''1.0'' ?ins"
  have h1: "?inputs \<noteq> []" by simp
  have h2: "decorated ?ds [''alice'', ''bob''] (Some \<lparr>ProposalDecorations = Map.empty\<rparr>) ?m ?inputs
              = Return (?txp, ?ins)"
    by (simp add: decorated_def decorate_input_def)
  have h3: "?d = (fst ?d, snd ?d)" by simp
  have n: "length (fst ?d) = 2"
    by (simp add: dispatched_def select_support_def task_call_def)
  have a: "Decorations (arg_input (fst ?d ! 0)) ''creator'' = Some ''alice''"
    by (simp add: dispatched_def select_support_def task_call_def)
  from shared_txParams [OF h1 h2 h3] obtain t where
    tk: "\<forall>k<length (fst ?d). arg_txParams (fst ?d ! k) = ?txp
             \<and> arg_txParams (fst ?d ! k) = Some t
             \<and> ProposalDecorations t = Decorations (?ins ! (length ?inputs - 1))"
    by blast
  have "0 < length (fst ?d)" by (simp only: n)
  then have "arg_txParams (fst ?d ! 0) = ?txp" using tk by blast
  then have b: "map_option (\<lambda>t. ProposalDecorations t ''creator'') (arg_txParams (fst ?d ! 0))
             = Some (Some ''bob'')"
    by simp
  show ?thesis by (intro conjI) (rule h1 h2 n a b)+
qed

section \<open>Target selection\<close>

text \<open>
  The second loop panics at the first input that has no argument, and at the first
  index the roster does not have; the goroutines of the earlier indices have been
  started by then.
\<close>

lemma dispatched_no_argument:
  "dispatched [\<lparr>CCContainerName = ''peer0''\<rparr>] (Some \<lparr>ProposalDecorations = Map.empty\<rparr>) ''mycc'' ''1.0''
     [\<lparr>Args = [], Decorations = Map.empty\<rparr>] = ([], True)"
  by (simp add: dispatched_def select_support_def)

text \<open>
  Claim C4. For every batch whose roster has at least \<open>N\<close> backends and whose inputs
  (as the first loop left them, which is what the second loop reads) all have a first
  argument, the second loop starts all \<open>N\<close> goroutines, and for every index \<open>i\<close> below
  \<open>N\<close> the goroutine of \<open>i\<close> calls the last backend of the roster when the first argument
  of \<open>inputs[i]\<close> is \<open>GetConfigBlock\<close>, and the backend at position \<open>i\<close> otherwise.
\<close>

theorem dispatched_backend:
  assumes "length ins \<le> length supports"
    and "\<forall>inp\<in>set ins. Args inp \<noteq> []"
    and "i < length ins"
  shows "\<exists>calls. dispatched supports txp name version ins = (calls, False)
           \<and> length calls = length ins
           \<and> arg_backend (calls ! i) =
               (if hd (Args (ins ! i)) = ''GetConfigBlock'' then last supports else supports ! i)"
proof -
  from dispatched_all [OF assms(1,2)] obtain calls where
    d: "dispatched supports txp name version ins = (calls, False)" and l: "length calls = length ins"
    by blast
  from dispatched_nth [OF d] assms(3) l show ?thesis
    using d by (simp add: task_call_def)
qed

theorem dispatched_backend_witness:
  "length [\<lparr>Args = [''GetConfigBlock'', ''mychannel''], Decorations = Map.empty\<rparr>,
           \<lparr>Args = [''invoke'', ''a''], Decorations = Map.empty\<rparr>]
     \<le> length [\<lparr>CCContainerName = ''peer0''\<rparr>, \<lparr>CCContainerName = ''peer1''\<rparr>,
                \<lparr>CCContainerName = ''primary''\<rparr>]
   \<and> list_all (\<lambda>inp. Args inp \<noteq> [])
       [\<lparr>Args = [''GetConfigBlock'', ''mychannel''], Decorations = Map.empty\<rparr>,
        \<lparr>Args = [''invoke'', ''a''], Decorations = Map.empty\<rparr>]
   \<and> (\<exists>calls.
         dispatched [\<lparr>CCContainerName = ''peer0''\<rparr>, \<lparr>CCContainerName = ''peer1''\<rparr>,
                     \<lparr>CCContainerName = ''primary''\<rparr>]
           (Some \<lparr>ProposalDecorations = Map.empty\<rparr>) ''mycc'' ''1.0''
           [\<lparr>Args = [''GetConfigBlock'', ''mychannel''], Decorations = Map.empty\<rparr>,
            \<lparr>Args = [''invoke'', ''a''], Decorations = Map.empty\<rparr>] = (calls, False)
         \<and> length calls = 2
         \<and> arg_backend (calls ! 0) = \<lparr>CCContainerName = ''primary''\<rparr>)"
proof -
  let ?ins = "[\<lparr>Args = [''GetConfigBlock'', ''mychannel''], Decorations = Map.empty\<rparr>,
               \<lparr>Args = [''invoke'', ''a''], Decorations = Map.empty\<rparr>]"
  let ?sup = "[\<lparr>CCContainerName = ''peer0''\<rparr>, \<lparr>CCContainerName = ''peer1''\<rparr>,
               \<lparr>CCContainerName = ''primary''\<rparr>]"
  have h1: "length ?ins \<le> length ?sup" by simp
  have h2: "\<forall>inp\<in>set ?ins. Args inp \<noteq> []" by simp
  have h3: "0 < length ?ins" by simp
  from dispatched_backend [OF h1 h2 h3, of "Some \<lparr>ProposalDecorations = Map.empty\<rparr>" "''mycc''" "''1.0''"]
  show ?thesis by (simp add: eval_nat_numeral)
qed

text \<open>
  Claim C3 as it is stated (the container name is appended to the version exactly for
  the two reserved names \<open>cscc\<close> and \<open>lscc\<close>) fails on the source, which appends it for
  every name but these two: at \<open>cscc\<close> and \<open>lscc\<close> nothing is appended, and at an ordinary
  name the version is not the caller's.
\<close>

theorem version2_reserved_counterexample:
  "version2 ''cscc'' ''1.0'' \<lparr>CCContainerName = ''peer0''\<rparr> = ''1.0''
   \<and> version2 ''cscc'' ''1.0'' \<lparr>CCContainerName = ''peer0''\<rparr>
       \<noteq> ''1.0'' @ ''-'' @ CCContainerName \<lparr>CCContainerName = ''peer0''\<rparr>
   \<and> version2 ''mycc'' ''1.0'' \<lparr>CCContainerName = ''peer0''\<rparr> = ''1.0-peer0''
   \<and> version2 ''mycc'' ''1.0'' \<lparr>CCContainerName = ''peer0''\<rparr> \<noteq> ''1.0''
   \<and> Version (arg_cccid
       (fst (dispatched [\<lparr>CCContainerName = ''peer0''\<rparr>] (Some \<lparr>ProposalDecorations = Map.empty\<rparr>)
               ''lscc'' ''1.0'' [\<lparr>Args = [''deploy''], Decorations = Map.empty\<rparr>]) ! 0))
       = ''1.0''"
  by (simp add: version2_def dispatched_def select_support_def task_call_def)

text \<open>
  Claim C3, amended. Every goroutine that is started builds its chaincode context from
  the caller's chaincode name and an effective version that is the caller-supplied
  version when the name is one of the two reserved names \<open>cscc\<close> and \<open>lscc\<close>, and the
  caller-supplied version followed by \<open>-\<close> and the container name of the backend it
  was routed to for every other name.
\<close>

theorem dispatched_version:
  assumes "dispatched supports txp name version ins = (calls, panicked)"
    and "k < length calls"
  shows "Name (arg_cccid (calls ! k)) = name
       \<and> Version (arg_cccid (calls ! k)) =
           (if name = ''cscc'' \<or> name = ''lscc'' then version
            else version @ ''-'' @ CCContainerName (arg_backend (calls ! k)))"
  using dispatched_nth [OF assms] by (simp add: task_call_def version2_def)

theorem dispatched_version_witness:
  "0 < length (fst (dispatched [\<lparr>CCContainerName = ''peer0''\<rparr>, \<lparr>CCContainerName = ''peer1''\<rparr>]
         (Some \<lparr>ProposalDecorations = Map.empty\<rparr>) ''mycc'' ''1.0''
         [\<lparr>Args = [''invoke''], Decorations = Map.empty\<rparr>,
          \<lparr>Args = [''GetConfigBlock''], Decorations = Map.empty\<rparr>]))
   \<and> Version (arg_cccid (fst (dispatched [\<lparr>CCContainerName = ''peer0''\<rparr>, \<lparr>CCContainerName = ''peer1''\<rparr>]
         (Some \<lparr>ProposalDecorations = Map.empty\<rparr>) ''mycc'' ''1.0''
         [\<lparr>Args = [''invoke''], Decorations = Map.empty\<rparr>,
          \<lparr>Args = [''GetConfigBlock''], Decorations = Map.empty\<rparr>]) ! 0)) = ''1.0-peer0''
   \<and> Name (arg_cccid (fst (dispatched [\<lparr>CCContainerName = ''peer0''\<rparr>, \<lparr>CCContainerName = ''peer1''\<rparr>]
         (Some \<lparr>ProposalDecorations = Map.empty\<rparr>) ''mycc'' ''1.0''
         [\<lparr>Args = [''invoke''], Decorations = Map.empty\<rparr>,
          \<lparr>Args = [''GetConfigBlock''], Decorations = Map.empty\<rparr>]) ! 0)) = ''mycc''"
proof -
  let ?d = "dispatched [\<lparr>CCContainerName = ''peer0''\<rparr>, \<lparr>CCContainerName = ''peer1''\<rparr>]
         (Some \<lparr>ProposalDecorations = Map.empty\<rparr>) ''mycc'' ''1.0''
         [\<lparr>Args = [''invoke''], Decorations = Map.empty\<rparr>,
          \<lparr>Args = [''GetConfigBlock''], Decorations = Map.empty\<rparr>]"
  have h1: "?d = (fst ?d, snd ?d)" by simp
  have h2: "0 < length (fst ?d)"
    by (simp add: dispatched_def select_support_def task_call_def)
  have b: "CCContainerName (arg_backend (fst ?d ! 0)) = ''peer0''"
    by (simp add: dispatched_def select_support_def task_call_def)
  from dispatched_version [OF h1 h2] b h2 show ?thesis by simp
qed

section \<open>The aggregation loop\<close>

text \<open>
  With no input no goroutine is started and nothing is ever sent: the aggregation
  loop blocks on its first receive under every schedule, and \<open>Execute\<close> does not return.
\<close>

lemma apc_init: "apc (init n) = RecvErr"
  by (simp add: init_def)

lemma Execute_empty_batch:
  "Execute exec decorators supports m txParams cid name version txid signedProp props [] sched
     = NotReturned"
  by (simp add: Execute_def decorated_def dispatched_def exec_sched_empty_batch apc_init)

text \<open>
  \<open>err\<close> is assigned by the receive from \<open>cErr\<close> and by nothing else, so what \<open>Execute\<close>
  returns is the error received last, nil or not. The body of the loop after its three
  receives: an outcome that is not the last one and is collected while \<open>err\<close> is not nil
  goes to slot 0 of both collections; the last one is appended and the loop exits
  before the test of \<open>err\<close>.
\<close>

lemma agg_step_err:
  assumes "agg_step n s = Some s'"
  shows "err s' = (case apc s of RecvErr \<Rightarrow> hd (cErr s) | _ \<Rightarrow> err s)"
  using assms
  by (cases "apc s") (auto simp: agg_step_def collect_def Let_def split: list.splits)

lemma collect_overwrites:
  assumes "Suc (length (resps s)) < n" and "err s \<noteq> None"
  shows "resps (collect n res evt s) = (resps s @ [res])[0 := res]
       \<and> ccEvents (collect n res evt s) = (ccEvents s @ [evt])[0 := evt]
       \<and> apc (collect n res evt s) = RecvErr"
  using assms by (simp add: collect_def Let_def)

lemma collect_last:
  assumes "n \<le> Suc (length (resps s))"
  shows "resps (collect n res evt s) = resps s @ [res]
       \<and> ccEvents (collect n res evt s) = ccEvents s @ [evt]
       \<and> apc (collect n res evt s) = Exited"
  using assms by (simp add: collect_def Let_def)

text \<open>
  The goroutines send event, error and response in three separate steps, so the
  values the loop reads in one iteration need not come from one task: here the first
  iteration pairs the response of task 1 with the event of task 0.
\<close>

lemma interleaved_sends:
  "exec_sched
     [Some \<lparr>response = ''R0'', event = ''V0'', task_err = None\<rparr>,
      Some \<lparr>response = ''R1'', event = ''V1'', task_err = None\<rparr>]
     [Task 0, Task 1, Task 0, Task 1, Task 1, Task 1, Aggregate, Aggregate, Aggregate,
      Task 0, Task 0, Aggregate, Aggregate, Aggregate]
     (init 2)
   = Some \<lparr>pcs = [Finished, Finished], cRes = [], cCCEvt = [], cErr = [], apc = Exited,
           err = None, resps = [''R1'', ''R0''], ccEvents = [''V0'', ''V1'']\<rparr>"
  by code_simp

text \<open>
  Claim C6. \<open>outs\<close> is what the backend calls of the \<open>N\<close> goroutines return (in
  \<open>Execute\<close>, \<open>map exec calls\<close>). For every batch of \<open>N \<ge> 1\<close> tasks whose backend
  calls all return: every execution of the goroutines and the aggregation loop has at most \<open>7N\<close> steps; as long
  as the loop has not exited some step is enabled, and the execution can be extended
  to one in which the loop has exited; the loop has exited exactly when \<open>N\<close> responses
  are collected, and never holds more; and at the exit the loop has made exactly \<open>3N\<close>
  receives (\<open>N\<close> iterations of one error, one response and one event), every goroutine
  has finished and the three channels are empty, so that each of the \<open>N\<close> outcomes has
  been received once.
\<close>

theorem aggregation_terminates:
  fixes s :: "('r, 'e) coord"
  assumes "outs \<noteq> []"
    and "\<forall>r\<in>set outs. r \<noteq> None"
    and "exec_sched outs sched (init (length outs)) = Some s"
  shows "length sched \<le> 7 * length outs
       \<and> (apc s \<noteq> Exited \<longrightarrow> (\<exists>a. step outs a s \<noteq> None))
       \<and> (\<exists>more s'. exec_sched outs (sched @ more) (init (length outs)) = Some s' \<and> apc s' = Exited)
       \<and> (apc s = Exited) = (length (resps s) = length outs)
       \<and> length (resps s) \<le> length outs
       \<and> (apc s = Exited \<longrightarrow>
            count_list sched Aggregate = 3 * length outs
            \<and> length (resps s) = length outs \<and> length (ccEvents s) = length outs
            \<and> pcs s = replicate (length outs) Finished
            \<and> cErr s = [] \<and> cRes s = [] \<and> cCCEvt s = [])"
proof -
  let ?n = "length outs"
  let ?i = "init ?n :: ('r, 'e) coord"
  have inv0: "coord_inv ?n ?i" using assms(1) by (simp add: coord_inv_init)
  from exec_sched_inv [OF assms(3) inv0]
  have inv: "coord_inv ?n s"
    and len: "length sched + total task_left s + agg_done ?i = total task_left ?i + agg_done s"
    and cnt: "count_list sched Aggregate + agg_done ?i = agg_done s"
    by simp_all
  have a0: "agg_done ?i = 0" by (simp add: agg_done_def init_def)
  have t0: "total task_left ?i = 4 * ?n"
    by (simp add: total_def init_def sum_list_replicate)
  have c1: "length sched \<le> 7 * ?n"
    using len a0 t0 agg_done_le(1) [OF inv] by simp
  have c2: "apc s \<noteq> Exited \<longrightarrow> (\<exists>a. step outs a s \<noteq> None)"
    using progress [OF inv assms(2)] by blast
  from can_finish [OF inv assms(2)] obtain more s' where
    "exec_sched outs more s = Some s'" "apc s' = Exited" by blast
  then have c3: "\<exists>more s'. exec_sched outs (sched @ more) (init ?n) = Some s' \<and> apc s' = Exited"
    using assms(3) by (auto simp: exec_sched_append)
  have c4: "(apc s = Exited) = (length (resps s) = ?n)"
    using inv by (auto simp: coord_inv_def split: if_splits)
  have c5: "length (resps s) \<le> ?n"
    using inv by (auto simp: coord_inv_def split: if_splits)
  have c6: "apc s = Exited \<longrightarrow>
            count_list sched Aggregate = 3 * ?n
            \<and> length (resps s) = ?n \<and> length (ccEvents s) = ?n
            \<and> pcs s = replicate ?n Finished
            \<and> cErr s = [] \<and> cRes s = [] \<and> cCCEvt s = []"
    using exited_all_done [OF inv] cnt a0 agg_done_le(2) [OF inv] by simp
  show ?thesis using c1 c2 c3 c4 c5 c6 by blast
qed

theorem aggregation_terminates_witness:
  "[Some \<lparr>response = ''R0'', event = ''V0'', task_err = Some (Errorf ''E'')\<rparr>,
    Some \<lparr>response = ''R1'', event = ''V1'', task_err = None\<rparr>] \<noteq> []
   \<and> list_all (\<lambda>r. r \<noteq> None)
       [Some \<lparr>response = ''R0'', event = ''V0'', task_err = Some (Errorf ''E'')\<rparr>,
        Some \<lparr>response = ''R1'', event = ''V1'', task_err = None\<rparr>]
   \<and> exec_sched
       [Some \<lparr>response = ''R0'', event = ''V0'', task_err = Some (Errorf ''E'')\<rparr>,
        Some \<lparr>response = ''R1'', event = ''V1'', task_err = None\<rparr>]
       [Task 1, Task 0, Task 1, Task 0, Task 1, Aggregate, Task 0, Task 1, Aggregate, Aggregate,
        Aggregate, Task 0, Aggregate, Aggregate]
       (init 2)
     = Some \<lparr>pcs = [Finished, Finished], cRes = [], cCCEvt = [], cErr = [], apc = Exited,
             err = Some (Errorf ''E''), resps = [''R1'', ''R0''], ccEvents = [''V1'', ''V0'']\<rparr>
   \<and> length [Task 1, Task 0, Task 1, Task 0, Task 1, Aggregate, Task 0, Task 1, Aggregate,
             Aggregate, Aggregate, Task 0, Aggregate, Aggregate] \<le> 7 * 2
   \<and> count_list [Task 1, Task 0, Task 1, Task 0, Task 1, Aggregate, Task 0, Task 1, Aggregate,
                 Aggregate, Aggregate, Task 0, Aggregate, Aggregate] Aggregate = 3 * 2"
proof -
  let ?outs = "[Some \<lparr>response = ''R0'', event = ''V0'', task_err = Some (Errorf ''E'')\<rparr>,
                Some \<lparr>response = ''R1'', event = ''V1'', task_err = None\<rparr>]"
  let ?sched = "[Task 1, Task 0, Task 1, Task 0, Task 1, Aggregate, Task 0, Task 1, Aggregate,
                 Aggregate, Aggregate, Task 0, Aggregate, Aggregate]"
  let ?s = "\<lparr>pcs = [Finished, Finished], cRes = [], cCCEvt = [], cErr = [], apc = Exited,
             err = Some (Errorf ''E''), resps = [''R1'', ''R0''], ccEvents = [''V1'', ''V0'']\<rparr>"
  have h1: "?outs \<noteq> []" by simp
  have h2: "\<forall>r\<in>set ?outs. r \<noteq> None" by simp
  have la: "list_all (\<lambda>r. r \<noteq> None) ?outs" by simp
  have l: "length ?outs = 2" by simp
  have e3: "exec_sched ?outs ?sched (init 2) = Some ?s" by code_simp
  have h3: "exec_sched ?outs ?sched (init (length ?outs)) = Some ?s"
    by (subst l) (rule e3)
  have e: "apc ?s = Exited" by simp
  from aggregation_terminates [OF h1 h2 h3] e
  have "length ?sched \<le> 7 * length ?outs \<and> count_list ?sched Aggregate = 3 * length ?outs"
    by blast
  then have c: "length ?sched \<le> 7 * 2 \<and> count_list ?sched Aggregate = 3 * 2"
    by (simp only: l)
  show ?thesis by (intro conjI) (rule h1 la e3 c [THEN conjunct1] c [THEN conjunct2])+
qed

text \<open>
  Claim C5. For every batch of \<open>N\<close> inputs (a batch has at least one input) on which
  neither loop panics and in which every task that is started gets a nil error from its
  backend: there is an execution in which \<open>Execute\<close> returns; every execution of the
  goroutines and the loop can be extended to one in which it returns; and whenever it
  returns, it returns \<open>N\<close> responses, \<open>N\<close> events and a nil error.
\<close>

theorem Execute_all_succeed:
  assumes "inputs \<noteq> []"
    and "decorated decorators props txParams m inputs = Return (txp, ins)"
    and "dispatched supports txp name version ins = (calls, False)"
    and "\<forall>c\<in>set calls. \<exists>out. exec c = Some out \<and> task_err out = None"
  shows "(\<exists>sched rs es.
            Execute exec decorators supports m txParams cid name version txid signedProp props inputs
              sched = Returned rs es None)
       \<and> (\<forall>sched s. exec_sched (map exec calls) sched (init (length calls)) = Some s
            \<longrightarrow> (\<exists>more rs es.
                  Execute exec decorators supports m txParams cid name version txid signedProp props
                    inputs (sched @ more) = Returned rs es None))
       \<and> (\<forall>sched rs es e.
            Execute exec decorators supports m txParams cid name version txid signedProp props inputs
              sched = Returned rs es e
            \<longrightarrow> length rs = length inputs \<and> length es = length inputs \<and> e = None)"
proof -
  let ?outs = "map exec calls"
  from decorated_Return_imp [OF assms(2)]
  have li: "length ins = length inputs" by simp
  from dispatch_loop_nth [OF assms(3) [unfolded dispatched_def]]
  have lc: "length calls = length inputs" using li by simp
  have n: "0 < length ?outs" using lc assms(1) by simp
  have outs: "\<forall>r\<in>set ?outs. \<exists>out. r = Some out \<and> task_err out = None"
    using assms(4) by auto
  then have some: "\<forall>r\<in>set ?outs. r \<noteq> None" by auto
  have inv0: "coord_inv (length ?outs) (init (length ?outs))"
    using n by (rule coord_inv_init)
  have ex: "Execute exec decorators supports m txParams cid name version txid signedProp props inputs
              sched =
            (case exec_sched ?outs sched (init (length calls)) of
               None \<Rightarrow> NotReturned
             | Some s \<Rightarrow> if apc s = Exited then Returned (resps s) (ccEvents s) (err s)
                         else NotReturned)" for sched
    using assms(2,3) by (simp add: Execute_def)
  have fin: "length (resps s) = length inputs \<and> length (ccEvents s) = length inputs \<and> err s = None"
    if r: "exec_sched ?outs sched (init (length calls)) = Some s" and e: "apc s = Exited"
    for sched s
  proof -
    have r': "exec_sched ?outs sched (init (length ?outs)) = Some s" using r by simp
    from exec_sched_inv [OF r' inv0] have "coord_inv (length ?outs) s" by simp
    from exited_all_done [OF this e] have "length (resps s) = length inputs"
      "length (ccEvents s) = length inputs" using lc by simp_all
    moreover from exec_sched_no_error [OF r' no_error_init outs] have "err s = None"
      by (simp add: no_error_def)
    ultimately show ?thesis by simp
  qed
  have ext: "\<exists>more rs es.
               Execute exec decorators supports m txParams cid name version txid signedProp props
                 inputs (sched @ more) = Returned rs es None"
    if r: "exec_sched ?outs sched (init (length calls)) = Some s" for sched s
  proof -
    have r': "exec_sched ?outs sched (init (length ?outs)) = Some s" using r by simp
    from exec_sched_inv [OF r' inv0] have inv: "coord_inv (length ?outs) s" by simp
    from can_finish [OF inv some] obtain more s' where
      m: "exec_sched ?outs more s = Some s'" and e: "apc s' = Exited" by blast
    have r2: "exec_sched ?outs (sched @ more) (init (length calls)) = Some s'"
      using r m by (simp add: exec_sched_append)
    have "Execute exec decorators supports m txParams cid name version txid signedProp props inputs
            (sched @ more) = Returned (resps s') (ccEvents s') None"
      using fin [OF r2 e] r2 e by (simp add: ex)
    then show ?thesis by blast
  qed
  have "exec_sched ?outs [] (init (length calls)) = Some (init (length calls))" by simp
  from ext [OF this]
  have A: "\<exists>sched rs es.
            Execute exec decorators supports m txParams cid name version txid signedProp props inputs
              sched = Returned rs es None" by auto
  have B: "length rs = length inputs \<and> length es = length inputs \<and> e = None"
    if "Execute exec decorators supports m txParams cid name version txid signedProp props inputs
              sched = Returned rs es e" for sched rs es e
    using that fin [of sched] unfolding ex
    by (auto split: option.splits if_splits)
  show ?thesis using A ext B by blast
qed

theorem Execute_all_succeed_witness:
  "[Some (0::addr), Some 1] \<noteq> []
   \<and> decorated ([] :: unit Decorator list) [(), ()] (Some \<lparr>ProposalDecorations = Map.empty\<rparr>)
       (\<lambda>a. if a = 0 then \<lparr>Args = [''invoke''], Decorations = Map.empty\<rparr>
             else \<lparr>Args = [''query''], Decorations = Map.empty\<rparr>)
       [Some 0, Some 1]
     = Return (Some \<lparr>ProposalDecorations = Map.empty\<rparr>,
               [\<lparr>Args = [''invoke''], Decorations = Map.empty\<rparr>,
                \<lparr>Args = [''query''], Decorations = Map.empty\<rparr>])
   \<and> snd (dispatched [\<lparr>CCContainerName = ''peer0''\<rparr>, \<lparr>CCContainerName = ''peer1''\<rparr>]
        (Some \<lparr>ProposalDecorations = Map.empty\<rparr>) ''mycc'' ''1.0''
        [\<lparr>Args = [''invoke''], Decorations = Map.empty\<rparr>,
         \<lparr>Args = [''query''], Decorations = Map.empty\<rparr>]) = False
   \<and> (\<exists>sched rs es.
        Execute
          (\<lambda>c. Some \<lparr>response = Version (arg_cccid c), event = hd (Args (arg_input c)),
                      task_err = None\<rparr>)
          ([] :: unit Decorator list)
          [\<lparr>CCContainerName = ''peer0''\<rparr>, \<lparr>CCContainerName = ''peer1''\<rparr>]
          (\<lambda>a. if a = 0 then \<lparr>Args = [''invoke''], Decorations = Map.empty\<rparr>
                else \<lparr>Args = [''query''], Decorations = Map.empty\<rparr>)
          (Some \<lparr>ProposalDecorations = Map.empty\<rparr>) ''ch'' ''mycc'' ''1.0'' ''tx'' () [(), ()]
          [Some 0, Some 1]
          sched = Returned rs es None)
   \<and> Execute
       (\<lambda>c. Some \<lparr>response = Version (arg_cccid c), event = hd (Args (arg_input c)),
                   task_err = None\<rparr>)
       ([] :: unit Decorator list)
       [\<lparr>CCContainerName = ''peer0''\<rparr>, \<lparr>CCContainerName = ''peer1''\<rparr>]
       (\<lambda>a. if a = 0 then \<lparr>Args = [''invoke''], Decorations = Map.empty\<rparr>
             else \<lparr>Args = [''query''], Decorations = Map.empty\<rparr>)
       (Some \<lparr>ProposalDecorations = Map.empty\<rparr>) ''ch'' ''mycc'' ''1.0'' ''tx'' () [(), ()]
       [Some 0, Some 1]
       [Task 1, Task 1, Task 1, Task 1, Aggregate, Aggregate, Aggregate,
        Task 0, Task 0, Task 0, Task 0, Aggregate, Aggregate, Aggregate]
     = Returned [''1.0-peer1'', ''1.0-peer0''] [''query'', ''invoke''] None"
proof -
  let ?inputs = "[Some (0::addr), Some 1]"
  let ?m = "\<lambda>a::addr. if a = 0 then \<lparr>Args = [''invoke''], Decorations = Map.empty\<rparr>
             else \<lparr>Args = [''query''], Decorations = Map.empty\<rparr>"
  let ?ins = "[\<lparr>Args = [''invoke''], Decorations = Map.empty\<rparr>,
               \<lparr>Args = [''query''], Decorations = Map.empty\<rparr>]"
  let ?txp = "Some \<lparr>ProposalDecorations = Map.empty\<rparr>"
  let ?sup = "[\<lparr>CCContainerName = ''peer0''\<rparr>, \<lparr>CCContainerName = ''peer1''\<rparr>]"
  let ?d = "dispatched ?sup ?txp ''mycc'' ''1.0'' ?ins"
  let ?exec = "\<lambda>c :: (unit, unit) backend_call.
                 Some \<lparr>response = Version (arg_cccid c), event = hd (Args (arg_input c)),
                       task_err = None\<rparr>"
  have h1: "?inputs \<noteq> []" by simp
  have h2: "decorated ([] :: unit Decorator list) [(), ()] ?txp ?m ?inputs = Return (?txp, ?ins)"
    by (simp add: decorated_def decorate_input_def)
  have p: "snd ?d = False"
    by (simp add: dispatched_def select_support_def task_call_def)
  have h3: "?d = (fst ?d, False)"
    by (rule prod_eqI) (simp_all only: fst_conv snd_conv p)
  have h4: "\<forall>c\<in>set (fst ?d). \<exists>out. ?exec c = Some out \<and> task_err out = None"
    by (intro ballI exI conjI) (rule refl, simp)
  note a = Execute_all_succeed [OF h1 h2 h3 h4,
      where cid = "''ch''" and txid = "''tx''" and signedProp = "()", THEN conjunct1]
  have b: "Execute ?exec ([] :: unit Decorator list) ?sup ?m ?txp ''ch'' ''mycc'' ''1.0'' ''tx'' ()
             [(), ()] ?inputs
             [Task 1, Task 1, Task 1, Task 1, Aggregate, Aggregate, Aggregate,
              Task 0, Task 0, Task 0, Task 0, Aggregate, Aggregate, Aggregate]
           = Returned [''1.0-peer1'', ''1.0-peer0''] [''query'', ''invoke''] None"
    by code_simp
  show ?thesis by (intro conjI) (rule h1 h2 p a b)+
qed

text \<open>
  Claim C2. The error \<open>Execute\<close> returns is the one received last, and a collected
  outcome with a non-nil error should overwrite slot 0 of both collections. The loop
  does so for a failing outcome that is not the last one (first batch: three tasks,
  the second one fails, and its response and event replace those of the first at slot
  0), but not for the failing outcome collected last (second batch: two tasks, the
  second one fails, and slot 0 keeps the response and the event of the first), since
  the loop exits before it tests \<open>err\<close>.
\<close>

theorem aggregation_last_failure_not_in_slot_0:
  "exec_sched
     [Some \<lparr>response = ''R0'', event = ''V0'', task_err = None\<rparr>,
      Some \<lparr>response = ''R1'', event = ''V1'', task_err = Some (Errorf ''E'')\<rparr>,
      Some \<lparr>response = ''R2'', event = ''V2'', task_err = None\<rparr>]
     [Task 0, Task 0, Task 0, Task 0, Aggregate, Aggregate, Aggregate,
      Task 1, Task 1, Task 1, Task 1, Aggregate, Aggregate, Aggregate,
      Task 2, Task 2, Task 2, Task 2, Aggregate, Aggregate, Aggregate]
     (init 3)
   = Some \<lparr>pcs = [Finished, Finished, Finished], cRes = [], cCCEvt = [], cErr = [],
           apc = Exited, err = None,
           resps = [''R1'', ''R1'', ''R2''], ccEvents = [''V1'', ''V1'', ''V2'']\<rparr>
   \<and> exec_sched
     [Some \<lparr>response = ''R0'', event = ''V0'', task_err = None\<rparr>,
      Some \<lparr>response = ''R1'', event = ''V1'', task_err = Some (Errorf ''E'')\<rparr>]
     [Task 0, Task 0, Task 0, Task 0, Aggregate, Aggregate, Aggregate,
      Task 1, Task 1, Task 1, Task 1, Aggregate, Aggregate, Aggregate]
     (init 2)
   = Some \<lparr>pcs = [Finished, Finished], cRes = [], cCCEvt = [], cErr = [],
           apc = Exited, err = Some (Errorf ''E''),
           resps = [''R0'', ''R1''], ccEvents = [''V0'', ''V1'']\<rparr>"
  by code_simp

text \<open>
  Claim C1. When exactly one task of a batch fails, \<open>Execute\<close> should return that task's
  error, with that task's response and event at slot 0. For the batch of two tasks in
  which the task of backend \<open>peer0\<close> fails with \<open>E\<close> and the other one succeeds, the
  source returns a nil error when the failing task completes first (the error of the
  later, successful task replaces it), and leaves the successful task's response and
  event at slot 0 when the failing task completes last (the loop exits before the
  overwrite).
\<close>

theorem Execute_single_failure:
  "Execute
     (\<lambda>c. if CCContainerName (arg_backend c) = ''peer0''
          then Some \<lparr>response = ''R0'', event = ''V0'', task_err = Some (Errorf ''E'')\<rparr>
          else Some \<lparr>response = ''R1'', event = ''V1'', task_err = None\<rparr>)
     ([] :: unit Decorator list)
     [\<lparr>CCContainerName = ''peer0''\<rparr>, \<lparr>CCContainerName = ''peer1''\<rparr>]
     (\<lambda>a. if a = 0 then \<lparr>Args = [''invoke''], Decorations = Map.empty\<rparr>
           else \<lparr>Args = [''query''], Decorations = Map.empty\<rparr>)
     (Some \<lparr>ProposalDecorations = Map.empty\<rparr>)
     ''ch'' ''mycc'' ''1.0'' ''tx'' () [(), ()]
     [Some 0, Some 1]
     [Task 0, Task 0, Task 0, Task 0, Aggregate, Aggregate, Aggregate,
      Task 1, Task 1, Task 1, Task 1, Aggregate, Aggregate, Aggregate]
   = Returned [''R0'', ''R1''] [''V0'', ''V1''] None
   \<and> Execute
     (\<lambda>c. if CCContainerName (arg_backend c) = ''peer0''
          then Some \<lparr>response = ''R0'', event = ''V0'', task_err = Some (Errorf ''E'')\<rparr>
          else Some \<lparr>response = ''R1'', event = ''V1'', task_err = None\<rparr>)
     ([] :: unit Decorator list)
     [\<lparr>CCContainerName = ''peer0''\<rparr>, \<lparr>CCContainerName = ''peer1''\<rparr>]
     (\<lambda>a. if a = 0 then \<lparr>Args = [''invoke''], Decorations = Map.empty\<rparr>
           else \<lparr>Args = [''query''], Decorations = Map.empty\<rparr>)
     (Some \<lparr>ProposalDecorations = Map.empty\<rparr>)
     ''ch'' ''mycc'' ''1.0'' ''tx'' () [(), ()]
     [Some 0, Some 1]
     [Task 1, Task 1, Task 1, Task 1, Aggregate, Aggregate, Aggregate,
      Task 0, Task 0, Task 0, Task 0, Aggregate, Aggregate, Aggregate]
   = Returned [''R1'', ''R0''] [''V1'', ''V0''] (Some (Errorf ''E''))"
  by code_simp

end
